theory Spec2Isabelle
  imports Main "HOL-Library.Word" "HOL-Library.Multiset"
begin

section \<open>The capability query protocol (struct DQueryInterface)\<close>

text \<open>
  \<^verbatim>\<open>enum class EPredicateResult : uint8_t { Ok = 0, CancellationRequested };\<close>
\<close>

datatype EPredicateResult = Ok | CancellationRequested

text \<open>
  What a call can end in instead of returning: a failed \<^verbatim>\<open>assert\<close> (the model is the
  build in which assertions are compiled in), a \<^verbatim>\<open>std::scoped_lock\<close> on a mutex the
  calling thread already holds (with \<^verbatim>\<open>std::mutex\<close>, the default of \<^verbatim>\<open>TMUTEXTYPE\<close>,
  that call never returns), and the dereference of a null pointer.
\<close>

datatype error = AssertionFailed | Deadlock | NullDereference

text \<open>
  \<^verbatim>\<open>QueryInterfaceByTypeId\<close> is pure virtual: every class brings its own. The model takes
  it as a parameter \<open>qi\<close>, from an object and a type identifier to the address of the
  sub-object (\<open>None\<close> is \<^verbatim>\<open>nullptr\<close>). The other members are defined on top of it, as in
  the header. The casts change the static type of the pointer and not its value.
\<close>

type_synonym ('o, 't, 'p) QueryInterfaceByTypeId = "'o \<Rightarrow> 't \<Rightarrow> 'p option"

text \<open>\<^verbatim>\<open>template<typename T> auto QueryInterface() const noexcept -> const T*\<close>\<close>

definition QueryInterface_T :: "('o, 't, 'p) QueryInterfaceByTypeId \<Rightarrow> 'o \<Rightarrow> 't \<Rightarrow> 'p option" where
  "QueryInterface_T qi this T = qi this T"

text \<open>\<^verbatim>\<open>template<typename T> auto HasInterface() const noexcept -> bool\<close>\<close>

definition HasInterface_T :: "('o, 't, 'p) QueryInterfaceByTypeId \<Rightarrow> 'o \<Rightarrow> 't \<Rightarrow> bool" where
  "HasInterface_T qi this T = (QueryInterface_T qi this T \<noteq> None)"

text \<open>
  \<^verbatim>\<open>auto QueryInterface(const std::type_info& in_typeId, const void** out_interface) -> bool\<close>:
  the assignment stores the resolved pointer through \<^verbatim>\<open>out_interface\<close> and its value,
  converted to \<^verbatim>\<open>bool\<close>, is returned. The model returns the flag and the stored pointer.
\<close>

definition QueryInterface_out :: "('o, 't, 'p) QueryInterfaceByTypeId \<Rightarrow> 'o \<Rightarrow> 't \<Rightarrow> bool \<times> 'p option" where
  "QueryInterface_out qi this in_typeId =
     (let out_interface = qi this in_typeId in (out_interface \<noteq> None, out_interface))"

text \<open>\<^verbatim>\<open>auto QueryInterface(const std::type_info& in_typeId) const noexcept -> const void*\<close>\<close>

definition QueryInterface_id :: "('o, 't, 'p) QueryInterfaceByTypeId \<Rightarrow> 'o \<Rightarrow> 't \<Rightarrow> 'p option" where
  "QueryInterface_id qi this in_typeId = qi this in_typeId"

text \<open>\<^verbatim>\<open>auto HasInterface(const std::type_info& in_typeId) const noexcept -> bool\<close>\<close>

definition HasInterface_id :: "('o, 't, 'p) QueryInterfaceByTypeId \<Rightarrow> 'o \<Rightarrow> 't \<Rightarrow> bool" where
  "HasInterface_id qi this in_typeId = (qi this in_typeId \<noteq> None)"

subsection \<open>The classes of the example program\<close>

datatype type_info = DFooInterface | DBarInterface | DBazInterface

datatype example_object = DExampleClass nat | DOtherExampleClass nat

text \<open>
  The two overrides of \<^verbatim>\<open>QueryInterfaceByTypeId\<close> in the example. The pointer returned by
  \<^verbatim>\<open>static_cast<const DBarInterface*>(this)\<close> is the base sub-object of the object: the
  pair of the object and the base.
\<close>

fun example_QueryInterfaceByTypeId ::
  "(example_object, type_info, example_object \<times> type_info) QueryInterfaceByTypeId" where
  "example_QueryInterfaceByTypeId (DExampleClass a) in_typeId =
     (if DBarInterface = in_typeId then Some (DExampleClass a, DBarInterface)
      else if DBazInterface = in_typeId then Some (DExampleClass a, DBazInterface)
      else None)"
| "example_QueryInterfaceByTypeId (DOtherExampleClass a) in_typeId =
     (if DFooInterface = in_typeId then Some (DOtherExampleClass a, DFooInterface)
      else if DBarInterface = in_typeId then Some (DOtherExampleClass a, DBarInterface)
      else if DBazInterface = in_typeId then Some (DOtherExampleClass a, DBazInterface)
      else None)"

section \<open>The object registry (struct DObjectRegistry)\<close>

text \<open>
  The three vectors, the three mutexes (\<open>True\<close>: held) and the generation counter, an
  \<^verbatim>\<open>unsigned int\<close> of 32 bits whose \<^verbatim>\<open>++\<close> wraps around. A \<^verbatim>\<open>std::shared_ptr\<close> that is not
  null is an object reference \<open>'o\<close>, compared by identity; one that may be null is an
  \<open>'o option\<close>. The assertions keep null out of \<open>m_objectsToAdd\<close>, hence out of
  \<open>m_objects\<close>; \<open>m_objectsToRemove\<close> can hold one, since the removal predicate gets the
  pointer by non-const reference after the assertion.
\<close>

record 'o DObjectRegistry =
  m_objects :: "'o list"
  m_objectsToAdd :: "'o list"
  m_objectsToRemove :: "'o option list"
  m_objectsLock :: bool
  m_objectsToAddLock :: bool
  m_objectsToRemoveLock :: bool
  m_generationId :: "32 word"

text \<open>\<^verbatim>\<open>DObjectRegistry() = default;\<close> with \<^verbatim>\<open>unsigned int m_generationId = 0;\<close>\<close>

definition DObjectRegistry_new :: "'o DObjectRegistry" where
  "DObjectRegistry_new =
     \<lparr>m_objects = [], m_objectsToAdd = [], m_objectsToRemove = [],
      m_objectsLock = False, m_objectsToAddLock = False, m_objectsToRemoveLock = False,
      m_generationId = 0\<rparr>"

definition GetGenerationId :: "'o DObjectRegistry \<Rightarrow> 32 word" where
  "GetGenerationId r = m_generationId r"

text \<open>
  A predicate is a closure of the caller. It gets the object, reads and updates what it
  has captured (the state \<open>'s\<close>) and returns an \<open>EPredicateResult\<close>. The model also hands
  it the registry as it is at the moment of the call, to read only: the predicates must
  not call back into the registry, and what is locked or queued while a predicate runs
  can then be stated.
\<close>

type_synonym ('o, 's) predicateFn = "'o DObjectRegistry \<Rightarrow> 'o \<Rightarrow> 's \<Rightarrow> EPredicateResult \<times> 's"

text \<open>
  The removal predicate takes \<^verbatim>\<open>std::shared_ptr<DQueryInterface>&\<close>, a reference to the
  parameter \<^verbatim>\<open>in_object\<close> of \<^verbatim>\<open>RequestRemoveObject\<close>: it also returns the pointer it
  leaves there.
\<close>

type_synonym ('o, 's) removalPredicateFn =
  "'o DObjectRegistry \<Rightarrow> 'o \<Rightarrow> 's \<Rightarrow> EPredicateResult \<times> 'o option \<times> 's"

text \<open>Sequencing of calls that can fail.\<close>

definition and_then :: "error + 'a \<Rightarrow> ('a \<Rightarrow> error + 'b) \<Rightarrow> error + 'b" where
  "and_then m k = (case m of Inl e \<Rightarrow> Inl e | Inr a \<Rightarrow> k a)"

text \<open>\<^verbatim>\<open>std::scoped_lock\<close> on each of the three mutexes, and the end of its scope.\<close>

definition lock_objects :: "'o DObjectRegistry \<Rightarrow> error + 'o DObjectRegistry" where
  "lock_objects r = (if m_objectsLock r then Inl Deadlock else Inr (r\<lparr>m_objectsLock := True\<rparr>))"

definition unlock_objects :: "'o DObjectRegistry \<Rightarrow> 'o DObjectRegistry" where
  "unlock_objects r = r\<lparr>m_objectsLock := False\<rparr>"

definition lock_objectsToAdd :: "'o DObjectRegistry \<Rightarrow> error + 'o DObjectRegistry" where
  "lock_objectsToAdd r =
     (if m_objectsToAddLock r then Inl Deadlock else Inr (r\<lparr>m_objectsToAddLock := True\<rparr>))"

definition unlock_objectsToAdd :: "'o DObjectRegistry \<Rightarrow> 'o DObjectRegistry" where
  "unlock_objectsToAdd r = r\<lparr>m_objectsToAddLock := False\<rparr>"

definition lock_objectsToRemove :: "'o DObjectRegistry \<Rightarrow> error + 'o DObjectRegistry" where
  "lock_objectsToRemove r =
     (if m_objectsToRemoveLock r then Inl Deadlock else Inr (r\<lparr>m_objectsToRemoveLock := True\<rparr>))"

definition unlock_objectsToRemove :: "'o DObjectRegistry \<Rightarrow> 'o DObjectRegistry" where
  "unlock_objectsToRemove r = r\<lparr>m_objectsToRemoveLock := False\<rparr>"

text \<open>
  \<^verbatim>\<open>RequestAddObject\<close>: the assertion, the lock of the add queue, \<^verbatim>\<open>push_back\<close>, and the
  lock released at the end of the scope.
\<close>

definition RequestAddObject :: "'o option \<Rightarrow> 'o DObjectRegistry \<Rightarrow> error + 'o DObjectRegistry" where
  "RequestAddObject in_object r =
     (case in_object of
        None \<Rightarrow> Inl AssertionFailed
      | Some ob \<Rightarrow>
          and_then (lock_objectsToAdd r) (\<lambda>r1.
            Inr (unlock_objectsToAdd (r1\<lparr>m_objectsToAdd := m_objectsToAdd r1 @ [ob]\<rparr>))))"

text \<open>
  \<^verbatim>\<open>RequestRemoveObject\<close>: the assertion; the predicate, when there is one, called before
  any lock is taken, and the return when it asks for cancellation; then the lock of the
  remove queue and \<^verbatim>\<open>push_back\<close> of \<^verbatim>\<open>in_object\<close> as the predicate left it.
\<close>

definition RequestRemoveObject ::
  "'o option \<Rightarrow> ('o, 's) removalPredicateFn option \<Rightarrow> 'o DObjectRegistry \<times> 's
     \<Rightarrow> error + ('o DObjectRegistry \<times> 's)" where
  "RequestRemoveObject in_object in_optProcessRemovalPredicateFn rs =
     (case rs of (r, s) \<Rightarrow>
        (case in_object of
           None \<Rightarrow> Inl AssertionFailed
         | Some ob \<Rightarrow>
             (let (res, in_object', s') =
                    (case in_optProcessRemovalPredicateFn of
                       None \<Rightarrow> (Ok, Some ob, s)
                     | Some fn \<Rightarrow> fn r ob s)
              in if in_optProcessRemovalPredicateFn \<noteq> None \<and> res = CancellationRequested
                 then Inr (r, s')
                 else and_then (lock_objectsToRemove r) (\<lambda>r1.
                        Inr (unlock_objectsToRemove
                               (r1\<lparr>m_objectsToRemove := m_objectsToRemove r1 @ [in_object']\<rparr>), s')))))"

text \<open>
  \<^verbatim>\<open>std::find(m_objects.begin(), m_objects.end(), it)\<close>: the position of the first element
  equal to \<open>it\<close>, or the length of the vector (\<^verbatim>\<open>end()\<close>) when there is none.
\<close>

fun std_find :: "'o list \<Rightarrow> 'o \<Rightarrow> nat" where
  "std_find [] it = 0"
| "std_find (x # xs) it = (if x = it then 0 else Suc (std_find xs it))"

text \<open>
  The loop over the pending additions, on the vector and the flag \<^verbatim>\<open>changed\<close>. Moving
  \<^verbatim>\<open>it\<close> into the vector leaves a null pointer in the queue, which is cleared after the
  loop without being read again.
\<close>

fun process_additions :: "'o list \<Rightarrow> 'o list \<times> bool \<Rightarrow> 'o list \<times> bool" where
  "process_additions [] (objs, changed) = (objs, changed)"
| "process_additions (it # rest) (objs, changed) =
     (if std_find objs it = length objs
      then process_additions rest (objs @ [it], True)
      else process_additions rest (objs, changed))"

text \<open>
  \<^verbatim>\<open>*foundObject = m_objects.back(); m_objects.pop_back();\<close> at position \<open>i\<close> of a
  vector that has one.
\<close>

definition swap_remove :: "'o list \<Rightarrow> nat \<Rightarrow> 'o list" where
  "swap_remove objs i = butlast (objs[i := last objs])"

text \<open>
  The loop over the pending removals. A null pointer in the queue equals no element of
  the vector.
\<close>

fun process_removals :: "'o option list \<Rightarrow> 'o list \<times> bool \<Rightarrow> 'o list \<times> bool" where
  "process_removals [] (objs, changed) = (objs, changed)"
| "process_removals (it # rest) (objs, changed) =
     (let foundObject = (case it of None \<Rightarrow> length objs | Some ob \<Rightarrow> std_find objs ob)
      in if foundObject \<noteq> length objs
         then process_removals rest (swap_remove objs foundObject, True)
         else process_removals rest (objs, changed))"

text \<open>
  The body of \<^verbatim>\<open>if (m_objectsToAdd.size() || m_objectsToRemove.size())\<close>, entered with the
  main lock held: the two blocks, each under the lock of its queue, then the counter.
\<close>

definition drain :: "'o DObjectRegistry \<Rightarrow> error + 'o DObjectRegistry" where
  "drain r =
     and_then (lock_objectsToAdd r) (\<lambda>ra.
       let (objs, changed) = process_additions (m_objectsToAdd ra) (m_objects ra, False);
           ra' = unlock_objectsToAdd (ra\<lparr>m_objects := objs, m_objectsToAdd := []\<rparr>)
       in and_then (lock_objectsToRemove ra') (\<lambda>rb.
            let (objs', changed') = process_removals (m_objectsToRemove rb) (m_objects rb, changed);
                rb' = unlock_objectsToRemove (rb\<lparr>m_objects := objs', m_objectsToRemove := []\<rparr>)
            in Inr (if changed' then rb'\<lparr>m_generationId := m_generationId rb' + 1\<rparr> else rb')))"

text \<open>
  \<^verbatim>\<open>for (auto& it : v) if (in_predicateFn(it) == CancellationRequested) break;\<close>
\<close>

fun for_each :: "('o \<Rightarrow> 's \<Rightarrow> EPredicateResult \<times> 's) \<Rightarrow> 'o list \<Rightarrow> 's \<Rightarrow> 's" where
  "for_each f [] s = s"
| "for_each f (it # rest) s =
     (case f it s of
        (CancellationRequested, s') \<Rightarrow> s'
      | (Ok, s') \<Rightarrow> for_each f rest s')"

text \<open>\<^verbatim>\<open>DObjectRegistry::ForEach\<close>\<close>

definition ForEach ::
  "('o, 's) predicateFn option \<Rightarrow> 'o DObjectRegistry \<times> 's \<Rightarrow> error + ('o DObjectRegistry \<times> 's)" where
  "ForEach in_predicateFn rs =
     (case rs of (r, s) \<Rightarrow>
        (case in_predicateFn of
           None \<Rightarrow> Inl AssertionFailed
         | Some fn \<Rightarrow>
             and_then (lock_objects r) (\<lambda>r1.
             and_then (if m_objectsToAdd r1 \<noteq> [] \<or> m_objectsToRemove r1 \<noteq> []
                       then drain r1 else Inr r1) (\<lambda>r2.
               Inr (unlock_objects r2, for_each (fn r2) (m_objects r2) s)))))"

section \<open>The capability view (struct DInterfaceCollection)\<close>

text \<open>
  The cache, the mutex and the generation last seen. The reference \<^verbatim>\<open>m_registry\<close> is the
  registry the operations of the view are given, and \<^verbatim>\<open>TINTERFACE\<close> is their parameter
  \<open>T\<close>.
\<close>

record 'o DInterfaceCollection =
  m_objects_c :: "'o list"
  m_objectsLock_c :: bool
  m_generationId_c :: "32 word"

definition UINT_MAX :: "32 word" where
  "UINT_MAX = 0xFFFFFFFF"

text \<open>\<^verbatim>\<open>CreateInterfaceCollection\<close>, with \<^verbatim>\<open>unsigned int m_generationId = UINT_MAX;\<close>\<close>

definition CreateInterfaceCollection :: "'o DInterfaceCollection" where
  "CreateInterfaceCollection =
     \<lparr>m_objects_c = [], m_objectsLock_c = False, m_generationId_c = UINT_MAX\<rparr>"

definition lock_c :: "'o DInterfaceCollection \<Rightarrow> error + 'o DInterfaceCollection" where
  "lock_c v = (if m_objectsLock_c v then Inl Deadlock else Inr (v\<lparr>m_objectsLock_c := True\<rparr>))"

definition unlock_c :: "'o DInterfaceCollection \<Rightarrow> 'o DInterfaceCollection" where
  "unlock_c v = v\<lparr>m_objectsLock_c := False\<rparr>"

text \<open>
  The lambda of the rebuild: what it captures and updates is the cache of the view.
\<close>

definition collect :: "('o, 't, 'p) QueryInterfaceByTypeId \<Rightarrow> 't \<Rightarrow> ('o, 'o list) predicateFn" where
  "collect qi T r in_object cache =
     (Ok, if HasInterface_T qi in_object T then cache @ [in_object] else cache)"

text \<open>\<^verbatim>\<open>DInterfaceCollection::ForEach\<close> on a predicate over the objects.\<close>

definition ForEach_c ::
  "('o, 't, 'p) QueryInterfaceByTypeId \<Rightarrow> 't \<Rightarrow> ('o, 's) predicateFn option
     \<Rightarrow> 'o DInterfaceCollection \<times> 'o DObjectRegistry \<times> 's
     \<Rightarrow> error + ('o DInterfaceCollection \<times> 'o DObjectRegistry \<times> 's)" where
  "ForEach_c qi T in_predicateFn vrs =
     (case vrs of (v, r, s) \<Rightarrow>
        (case in_predicateFn of
           None \<Rightarrow> Inl AssertionFailed
         | Some fn \<Rightarrow>
             and_then (lock_c v) (\<lambda>v1.
             and_then (if m_generationId_c v1 \<noteq> GetGenerationId r
                       then and_then (ForEach (Some (collect qi T)) (r, []))
                              (\<lambda>(r', cache).
                                 Inr (v1\<lparr>m_objects_c := cache,
                                          m_generationId_c := GetGenerationId r'\<rparr>, r'))
                       else Inr (v1, r)) (\<lambda>(v2, r2).
               Inr (unlock_c v2, r2, for_each (fn r2) (m_objects_c v2) s)))))"

text \<open>
  \<^verbatim>\<open>DInterfaceCollection::ForEach\<close> on a predicate over the capability: the object
  predicate it builds dereferences \<^verbatim>\<open>in_object->QueryInterface<TINTERFACE>()\<close> unchecked.
  On a null pointer the enumeration ends there with \<open>NullDereference\<close>.
\<close>

definition deref_predicate ::
  "('o, 't, 'p) QueryInterfaceByTypeId \<Rightarrow> 't \<Rightarrow> ('o DObjectRegistry \<Rightarrow> 'p \<Rightarrow> 's \<Rightarrow> EPredicateResult \<times> 's)
     \<Rightarrow> ('o, error + 's) predicateFn" where
  "deref_predicate qi T in_predicateFn r in_object st =
     (case st of
        Inl e \<Rightarrow> (CancellationRequested, Inl e)
      | Inr s \<Rightarrow>
          (case QueryInterface_T qi in_object T of
             None \<Rightarrow> (CancellationRequested, Inl NullDereference)
           | Some p \<Rightarrow> (case in_predicateFn r p s of (res, s') \<Rightarrow> (res, Inr s'))))"

definition ForEach_cap ::
  "('o, 't, 'p) QueryInterfaceByTypeId \<Rightarrow> 't
     \<Rightarrow> ('o DObjectRegistry \<Rightarrow> 'p \<Rightarrow> 's \<Rightarrow> EPredicateResult \<times> 's) option
     \<Rightarrow> 'o DInterfaceCollection \<times> 'o DObjectRegistry \<times> 's
     \<Rightarrow> error + ('o DInterfaceCollection \<times> 'o DObjectRegistry \<times> 's)" where
  "ForEach_cap qi T in_predicateFn vrs =
     (case vrs of (v, r, s) \<Rightarrow>
        (case in_predicateFn of
           None \<Rightarrow> Inl AssertionFailed
         | Some fn \<Rightarrow>
             and_then (ForEach_c qi T (Some (deref_predicate qi T fn)) (v, r, Inr s))
               (\<lambda>(v', r', st). case st of Inl e \<Rightarrow> Inl e | Inr s' \<Rightarrow> Inr (v', r', s'))))"

section \<open>Sequences of requests and what a caller observes\<close>

text \<open>
  The calls a client makes on a registry, and a sequence of them run in order. Calls of
  several threads on the queues are serialised by the lock of the queue, so what the
  registry holds after them is what one of their orders gives.
\<close>

datatype ('o, 's) request =
    AddRequest "'o option"
  | RemoveRequest "'o option" "('o, 's) removalPredicateFn option"
  | Enumerate "('o, 's) predicateFn option"

fun request_step ::
  "('o, 's) request \<Rightarrow> 'o DObjectRegistry \<times> 's \<Rightarrow> error + ('o DObjectRegistry \<times> 's)" where
  "request_step (AddRequest in_object) (r, s) =
     and_then (RequestAddObject in_object r) (\<lambda>r'. Inr (r', s))"
| "request_step (RemoveRequest in_object fn) (r, s) = RequestRemoveObject in_object fn (r, s)"
| "request_step (Enumerate fn) (r, s) = ForEach fn (r, s)"

fun run ::
  "('o, 's) request list \<Rightarrow> 'o DObjectRegistry \<times> 's \<Rightarrow> error + ('o DObjectRegistry \<times> 's)" where
  "run [] rs = Inr rs"
| "run (q # qs) rs = and_then (request_step q rs) (run qs)"

text \<open>The number of calls of \<open>ForEach\<close> in a sequence of requests.\<close>

fun enumerations :: "('o, 's) request list \<Rightarrow> nat" where
  "enumerations [] = 0"
| "enumerations (Enumerate fn # qs) = Suc (enumerations qs)"
| "enumerations (q # qs) = enumerations qs"

definition locks_free :: "'o DObjectRegistry \<Rightarrow> bool" where
  "locks_free r = (\<not> m_objectsLock r \<and> \<not> m_objectsToAddLock r \<and> \<not> m_objectsToRemoveLock r)"

text \<open>The object references in the remove queue (its pointers that are not null).\<close>

fun refs :: "'o option list \<Rightarrow> 'o list" where
  "refs [] = []"
| "refs (None # ps) = refs ps"
| "refs (Some ob # ps) = ob # refs ps"

text \<open>
  A drain makes a structural change when a pending addition is of an object that the
  materialized set does not hold, or a pending removal is of an object that it holds
  once the additions are in.
\<close>

definition structural_change :: "'o DObjectRegistry \<Rightarrow> bool" where
  "structural_change r =
     ((\<exists>ob \<in> set (m_objectsToAdd r). ob \<notin> set (m_objects r)) \<or>
      (\<exists>ob \<in> set (refs (m_objectsToRemove r)). ob \<in> set (m_objects r) \<or> ob \<in> set (m_objectsToAdd r)))"

text \<open>
  The registry that a call of \<open>ForEach\<close> leaves, in closed form (lemma \<open>ForEach_drained\<close>).
\<close>

definition drained :: "'o DObjectRegistry \<Rightarrow> 'o DObjectRegistry" where
  "drained r =
     (case process_removals (m_objectsToRemove r)
             (process_additions (m_objectsToAdd r) (m_objects r, False)) of
        (objs, changed) \<Rightarrow>
          r\<lparr>m_objects := objs, m_objectsToAdd := [], m_objectsToRemove := [],
            m_generationId := (if changed then m_generationId r + 1 else m_generationId r)\<rparr>)"

text \<open>
  Predicates that record what they are called on: the caller's predicate \<open>fn\<close> with a log
  added to what it captures. The log of an enumeration is the sequence of the elements
  visited, each with the result returned for it.
\<close>

definition observe ::
  "('r \<Rightarrow> 'a \<Rightarrow> 's \<Rightarrow> EPredicateResult \<times> 's)
     \<Rightarrow> 'r \<Rightarrow> 'a \<Rightarrow> 's \<times> ('a \<times> EPredicateResult) list
     \<Rightarrow> EPredicateResult \<times> ('s \<times> ('a \<times> EPredicateResult) list)" where
  "observe fn r a sl =
     (case sl of (s, log) \<Rightarrow> (case fn r a s of (res, s') \<Rightarrow> (res, (s', log @ [(a, res)]))))"

text \<open>
  The same for a removal predicate; the log holds the registry as it is at each call.
\<close>

definition observe_removal ::
  "('o, 's) removalPredicateFn \<Rightarrow> ('o, 's \<times> 'o DObjectRegistry list) removalPredicateFn" where
  "observe_removal fn r ob sl =
     (case sl of (s, log) \<Rightarrow> (case fn r ob s of (res, p, s') \<Rightarrow> (res, p, (s', log @ [r]))))"

text \<open>
  An enumeration stopped by cancellation: the only element of the log with the result
  \<open>CancellationRequested\<close> is its last one.
\<close>

definition cancellation_is_last :: "('a \<times> EPredicateResult) list \<Rightarrow> bool" where
  "cancellation_is_last log =
     (\<forall>k < length log. snd (log ! k) = CancellationRequested \<longrightarrow> Suc k = length log)"

text \<open>
  The log of an enumeration over \<open>xs\<close>: the elements of \<open>xs\<close> in order from the first,
  up to the end or up to and with the first one the predicate cancels on.
\<close>

definition enumeration_log :: "'a list \<Rightarrow> ('a \<times> EPredicateResult) list \<Rightarrow> bool" where
  "enumeration_log xs log =
     (map fst log = take (length log) xs \<and> cancellation_is_last log \<and>
      (length log = length xs \<or> (log \<noteq> [] \<and> snd (last log) = CancellationRequested)))"

text \<open>What every request keeps, and how far it moves the generation counter.\<close>

definition step_relation :: "('o, 's) request \<Rightarrow> 'o DObjectRegistry \<Rightarrow> 'o DObjectRegistry \<Rightarrow> bool" where
  "step_relation q r r' =
     (locks_free r' \<and> (distinct (m_objects r) \<longrightarrow> distinct (m_objects r')) \<and>
      (m_generationId r' = m_generationId r \<or>
       (enumerations [q] = 1 \<and> m_generationId r' = m_generationId r + 1)))"

text \<open>
  A view in step with a registry: its \<open>ForEach\<close> will rebuild, or its cache is the
  materialized set filtered by the capability. A view that \<open>ForEach\<close> has rebuilt is in
  step by the second condition.
\<close>

definition view_in_step ::
  "('o, 't, 'p) QueryInterfaceByTypeId \<Rightarrow> 't \<Rightarrow> 'o DInterfaceCollection \<Rightarrow> 'o DObjectRegistry
     \<Rightarrow> bool" where
  "view_in_step qi T v r =
     (m_generationId_c v \<noteq> m_generationId r \<or>
      m_objects_c v = filter (\<lambda>ob. HasInterface_T qi ob T) (m_objects r))"

subsection \<open>Predicates and requests of the examples\<close>

definition visit_all :: "'r \<Rightarrow> 'a \<Rightarrow> nat \<Rightarrow> EPredicateResult \<times> nat" where
  "visit_all r ob n = (Ok, Suc n)"

definition stop_at :: "'a \<Rightarrow> 'r \<Rightarrow> 'a \<Rightarrow> nat \<Rightarrow> EPredicateResult \<times> nat" where
  "stop_at x r ob n = (if ob = x then CancellationRequested else Ok, Suc n)"

definition veto_always :: "('o, nat) removalPredicateFn" where
  "veto_always r ob n = (CancellationRequested, Some ob, Suc n)"

definition keep_going :: "('o, unit) predicateFn" where
  "keep_going r ob u = (Ok, u)"

text \<open>
  After its first addition and drain, one object of the example program is, \<open>n\<close>
  times, removed and added again, with a drain after each request.
\<close>

primrec churn :: "nat \<Rightarrow> (example_object, unit) request list" where
  "churn 0 = []"
| "churn (Suc n) =
     [RemoveRequest (Some (DOtherExampleClass 0)) None, Enumerate (Some keep_going),
      AddRequest (Some (DOtherExampleClass 0)), Enumerate (Some keep_going)] @ churn n"

definition wrap_requests :: "(example_object, unit) request list" where
  "wrap_requests =
     [AddRequest (Some (DOtherExampleClass 0)), Enumerate (Some keep_going)] @ churn 2147483647"

text \<open>The registry with that object in it, at a given generation.\<close>

definition registry_at :: "32 word \<Rightarrow> example_object DObjectRegistry" where
  "registry_at g =
     \<lparr>m_objects = [DOtherExampleClass 0], m_objectsToAdd = [], m_objectsToRemove = [],
      m_objectsLock = False, m_objectsToAddLock = False, m_objectsToRemoveLock = False,
      m_generationId = g\<rparr>"

text \<open>A registry with pending requests, some of which change nothing.\<close>

definition example_registry :: "nat DObjectRegistry" where
  "example_registry =
     \<lparr>m_objects = [1, 2], m_objectsToAdd = [2, 3], m_objectsToRemove = [Some 1, Some 4],
      m_objectsLock = False, m_objectsToAddLock = False, m_objectsToRemoveLock = False,
      m_generationId = 7\<rparr>"

text \<open>
  The registry of the example program after its objects are in, and views on it: one
  built at its generation, one that has not seen it.
\<close>

definition example_objects :: "example_object DObjectRegistry" where
  "example_objects =
     \<lparr>m_objects = [DExampleClass 1, DOtherExampleClass 2, DOtherExampleClass 3],
      m_objectsToAdd = [], m_objectsToRemove = [],
      m_objectsLock = False, m_objectsToAddLock = False, m_objectsToRemoveLock = False,
      m_generationId = 1\<rparr>"

definition example_view :: "example_object DInterfaceCollection" where
  "example_view =
     \<lparr>m_objects_c = [DExampleClass 1, DOtherExampleClass 2, DOtherExampleClass 3],
      m_objectsLock_c = False, m_generationId_c = 1\<rparr>"

text \<open>The view on \<open>DFooInterface\<close> as its first \<open>ForEach\<close> on that registry leaves it.\<close>

definition example_foo_view :: "example_object DInterfaceCollection" where
  "example_foo_view =
     \<lparr>m_objects_c = [DOtherExampleClass 2, DOtherExampleClass 3],
      m_objectsLock_c = False, m_generationId_c = 1\<rparr>"

section \<open>Lemmas on the loops of the drain\<close>

lemma std_find_le: "std_find xs x \<le> length xs"
  by (induction xs) auto

lemma std_find_end: "(std_find xs x = length xs) = (x \<notin> set xs)"
  by (induction xs) auto

lemma std_find_nth: "x \<in> set xs \<Longrightarrow> std_find xs x < length xs \<and> xs ! std_find xs x = x"
  by (induction xs) auto

lemma mset_process_additions:
  "mset (fst (process_additions as (objs, ch))) = mset objs + mset_set (set as - set objs)"
proof (induction as arbitrary: objs ch)
  case Nil
  then show ?case by simp
next
  case (Cons it rest)
  show ?case
  proof (cases "it \<in> set objs")
    case True
    then have "set (it # rest) - set objs = set rest - set objs" by auto
    with True Cons.IH [of objs ch] show ?thesis by (simp add: std_find_end)
  next
    case False
    have fin: "finite (set rest - set (objs @ [it]))" by simp
    have nin: "it \<notin> set rest - set (objs @ [it])" by simp
    have "set (it # rest) - set objs = insert it (set rest - set (objs @ [it]))"
      using False by auto
    then have "mset_set (set (it # rest) - set objs) = add_mset it (mset_set (set rest - set (objs @ [it])))"
      using fin nin by simp
    with False Cons.IH [of "objs @ [it]" True] show ?thesis by (simp add: std_find_end)
  qed
qed

lemma changed_process_additions:
  "snd (process_additions as (objs, ch)) = (ch \<or> (\<exists>x\<in>set as. x \<notin> set objs))"
  by (induction as arbitrary: objs ch) (auto simp: std_find_end)

lemma mset_swap_remove:
  assumes "i < length objs"
  shows "mset (swap_remove objs i) = mset objs - {#objs ! i#}"
proof -
  let ?ys = "objs[i := last objs]"
  from assms have ne: "objs \<noteq> []" by auto
  have l: "last ?ys = last objs"
    using assms ne by (simp add: last_conv_nth nth_list_update)
  have "mset ?ys = add_mset (last objs) (mset objs - {#objs ! i#})"
    using assms by (simp add: mset_update)
  moreover have "mset (butlast ?ys) = mset ?ys - {#last ?ys#}"
  proof -
    have "?ys \<noteq> []" using ne by simp
    then have "?ys = butlast ?ys @ [last ?ys]" by simp
    then have "mset ?ys = add_mset (last ?ys) (mset (butlast ?ys))"
      by (metis mset.simps(2) mset_append union_mset_add_mset_right add.right_neutral mset.simps(1))
    then show ?thesis by simp
  qed
  ultimately show ?thesis by (simp add: swap_remove_def l)
qed


lemma mset_process_removals:
  "mset (fst (process_removals ps (objs, ch))) = mset objs - mset (refs ps)"
proof (induction ps arbitrary: objs ch)
  case Nil
  then show ?case by simp
next
  case (Cons it rest)
  show ?case
  proof (cases it)
    case None
    with Cons.IH [of objs ch] show ?thesis by simp
  next
    case (Some ob)
    show ?thesis
    proof (cases "ob \<in> set objs")
      case True
      then have i: "std_find objs ob < length objs" and n: "objs ! std_find objs ob = ob"
        by (simp_all add: std_find_nth)
      from i have "std_find objs ob \<noteq> length objs" by simp
      with Some Cons.IH [of "swap_remove objs (std_find objs ob)" True] mset_swap_remove [OF i] n
      show ?thesis by simp
    next
      case False
      then have "std_find objs ob = length objs" by (simp add: std_find_end)
      moreover from False have "mset objs - {#ob#} = mset objs" by simp
      ultimately show ?thesis
        using Some Cons.IH [of objs ch] by (simp del: diff_single_trivial) (metis diff_diff_add add_mset_add_single union_commute diff_single_trivial False set_mset_mset)
    qed
  qed
qed

lemma changed_process_removals:
  "snd (process_removals ps (objs, ch)) = (ch \<or> (\<exists>ob\<in>set (refs ps). ob \<in> set objs))"
proof (induction ps arbitrary: objs ch)
  case Nil
  then show ?case by simp
next
  case (Cons it rest)
  show ?case
  proof (cases it)
    case None
    with Cons.IH [of objs ch] show ?thesis by simp
  next
    case (Some ob)
    show ?thesis
    proof (cases "ob \<in> set objs")
      case True
      then have "std_find objs ob \<noteq> length objs" by (simp add: std_find_end)
      with Some True Cons.IH [of "swap_remove objs (std_find objs ob)" True]
      show ?thesis by auto
    next
      case False
      then have "std_find objs ob = length objs" by (simp add: std_find_end)
      with Some False Cons.IH [of objs ch] show ?thesis by auto
    qed
  qed
qed

lemma ForEach_drained:
  assumes "locks_free r"
  shows "ForEach (Some fn) (r, s) =
           Inr (drained r, for_each (fn ((drained r)\<lparr>m_objectsLock := True\<rparr>)) (m_objects (drained r)) s)"
proof (cases r)
  case (fields objs adds rems l1 l2 l3 g)
  with assms have l: "\<not> l1" "\<not> l2" "\<not> l3" by (simp_all add: locks_free_def)
  show ?thesis
  proof (cases "adds \<noteq> [] \<or> rems \<noteq> []")
    case True
    with fields l show ?thesis
      by (simp add: ForEach_def drain_def drained_def and_then_def lock_objects_def
            unlock_objects_def lock_objectsToAdd_def unlock_objectsToAdd_def
            lock_objectsToRemove_def unlock_objectsToRemove_def split: prod.splits)
  next
    case False
    with fields l show ?thesis
      by (simp add: ForEach_def drained_def and_then_def lock_objects_def unlock_objects_def)
  qed
qed

section \<open>What a drain leaves\<close>

lemma drained_queues: "m_objectsToAdd (drained r) = [] \<and> m_objectsToRemove (drained r) = []"
  by (simp add: drained_def split: prod.splits)

lemma drained_locks:
  "m_objectsLock (drained r) = m_objectsLock r \<and>
   m_objectsToAddLock (drained r) = m_objectsToAddLock r \<and>
   m_objectsToRemoveLock (drained r) = m_objectsToRemoveLock r"
  by (simp add: drained_def split: prod.splits)

lemma locks_free_drained: "locks_free (drained r) = locks_free r"
  by (simp add: locks_free_def drained_locks)

lemma mset_drained:
  "mset (m_objects (drained r)) =
     mset (m_objects r) + mset_set (set (m_objectsToAdd r) - set (m_objects r))
       - mset (refs (m_objectsToRemove r))"
proof -
  obtain objs ch where a: "process_additions (m_objectsToAdd r) (m_objects r, False) = (objs, ch)"
    by (cases "process_additions (m_objectsToAdd r) (m_objects r, False)")
  obtain objs' ch' where b: "process_removals (m_objectsToRemove r) (objs, ch) = (objs', ch')"
    by (cases "process_removals (m_objectsToRemove r) (objs, ch)")
  from a have "mset objs = mset (m_objects r) + mset_set (set (m_objectsToAdd r) - set (m_objects r))"
    using mset_process_additions [of "m_objectsToAdd r" "m_objects r" False] by simp
  moreover from b have "mset objs' = mset objs - mset (refs (m_objectsToRemove r))"
    using mset_process_removals [of "m_objectsToRemove r" objs ch] by simp
  ultimately show ?thesis using a b by (simp add: drained_def)
qed

lemma set_process_additions:
  "set (fst (process_additions as (objs, ch))) = set objs \<union> set as"
proof -
  have "set_mset (mset (fst (process_additions as (objs, ch)))) = set objs \<union> set as"
    unfolding mset_process_additions by auto
  then show ?thesis by simp
qed

lemma generation_drained:
  "m_generationId (drained r) =
     (if structural_change r then m_generationId r + 1 else m_generationId r)"
proof -
  obtain objs ch where a: "process_additions (m_objectsToAdd r) (m_objects r, False) = (objs, ch)"
    by (cases "process_additions (m_objectsToAdd r) (m_objects r, False)")
  obtain objs' ch' where b: "process_removals (m_objectsToRemove r) (objs, ch) = (objs', ch')"
    by (cases "process_removals (m_objectsToRemove r) (objs, ch)")
  from a have ch: "ch = (\<exists>x\<in>set (m_objectsToAdd r). x \<notin> set (m_objects r))"
    using changed_process_additions [of "m_objectsToAdd r" "m_objects r" False] by simp
  from a have objs: "set objs = set (m_objects r) \<union> set (m_objectsToAdd r)"
    using set_process_additions [of "m_objectsToAdd r" "m_objects r" False] by simp
  from b have "ch' = (ch \<or> (\<exists>ob\<in>set (refs (m_objectsToRemove r)). ob \<in> set objs))"
    using changed_process_removals [of "m_objectsToRemove r" objs ch] by simp
  with ch objs have "ch' = structural_change r"
    by (simp add: structural_change_def)
  with a b show ?thesis by (simp add: drained_def)
qed

lemma drained_idle:
  "m_objectsToAdd r = [] \<Longrightarrow> m_objectsToRemove r = [] \<Longrightarrow> drained r = r"
  by (simp add: drained_def)

lemma distinct_drained:
  assumes "distinct (m_objects r)"
  shows "distinct (m_objects (drained r))"
proof -
  have "count (mset (m_objects (drained r))) a \<le> 1" for a
  proof -
    have fin: "finite (set (m_objectsToAdd r) - set (m_objects r))" by simp
    have "count (mset (m_objects r) + mset_set (set (m_objectsToAdd r) - set (m_objects r))) a \<le> 1"
      using assms fin by (cases "a \<in> set (m_objects r)") (auto simp: distinct_count_atmost_1 count_mset_set')
    then show ?thesis unfolding mset_drained by simp
  qed
  then show ?thesis
    by (metis count_mset_0_iff distinct_count_atmost_1 le_antisym not_less_eq_eq One_nat_def le0 not_in_iff set_mset_mset count_greater_eq_one_iff)
qed

section \<open>The requests in closed form, and what every sequence of them keeps\<close>

lemma RequestAddObject_eq:
  assumes "\<not> m_objectsToAddLock r"
  shows "RequestAddObject (Some ob) r = Inr (r\<lparr>m_objectsToAdd := m_objectsToAdd r @ [ob]\<rparr>)"
  using assms
  by (cases r) (simp add: RequestAddObject_def and_then_def lock_objectsToAdd_def unlock_objectsToAdd_def)

lemma RequestRemoveObject_None_eq:
  assumes "\<not> m_objectsToRemoveLock r"
  shows "RequestRemoveObject (Some ob) None (r, s) =
           Inr (r\<lparr>m_objectsToRemove := m_objectsToRemove r @ [Some ob]\<rparr>, s)"
  using assms
  by (cases r) (simp add: RequestRemoveObject_def and_then_def lock_objectsToRemove_def
        unlock_objectsToRemove_def)

lemma RequestRemoveObject_Some_eq:
  assumes "\<not> m_objectsToRemoveLock r" and "fn r ob s = (res, p, s')"
  shows "RequestRemoveObject (Some ob) (Some fn) (r, s) =
           (if res = CancellationRequested then Inr (r, s')
            else Inr (r\<lparr>m_objectsToRemove := m_objectsToRemove r @ [p]\<rparr>, s'))"
  using assms
  by (cases r) (simp add: RequestRemoveObject_def and_then_def lock_objectsToRemove_def
        unlock_objectsToRemove_def)

lemma RequestAddObject_Inr:
  assumes "RequestAddObject in_object r = Inr r'"
  shows "\<exists>ob. in_object = Some ob \<and> r' = r\<lparr>m_objectsToAdd := m_objectsToAdd r @ [ob]\<rparr>"
  using assms
  by (cases r; cases in_object)
     (auto simp: RequestAddObject_def and_then_def lock_objectsToAdd_def unlock_objectsToAdd_def
        split: if_splits)

lemma RequestRemoveObject_Inr:
  assumes "RequestRemoveObject in_object fn (r, s) = Inr (r', s')"
  shows "r' = r \<or> (\<exists>p. r' = r\<lparr>m_objectsToRemove := m_objectsToRemove r @ [p]\<rparr>)"
  using assms
  by (cases r; cases in_object; cases fn)
     (auto simp: RequestRemoveObject_def and_then_def lock_objectsToRemove_def
        unlock_objectsToRemove_def split: if_splits prod.splits)

lemma ForEach_Inr:
  assumes "ForEach fn (r, s) = Inr (r', s')" and "locks_free r"
  shows "r' = drained r"
proof (cases fn)
  case None
  with assms show ?thesis by (simp add: ForEach_def)
next
  case (Some f)
  with assms ForEach_drained [of r f s] show ?thesis by simp
qed

lemma request_step_relation:
  assumes "request_step q (r, s) = Inr (r', s')" and "locks_free r"
  shows "step_relation q r r'"
proof (cases q)
  case (AddRequest in_object)
  with assms(1) obtain r1 where "RequestAddObject in_object r = Inr r1" and "r' = r1"
    by (auto simp: and_then_def split: sum.splits)
  then obtain ob where "r' = r\<lparr>m_objectsToAdd := m_objectsToAdd r @ [ob]\<rparr>"
    using RequestAddObject_Inr by blast
  with assms(2) show ?thesis by (simp add: step_relation_def locks_free_def)
next
  case (RemoveRequest in_object fn)
  with assms(1) have "RequestRemoveObject in_object fn (r, s) = Inr (r', s')" by simp
  then have "r' = r \<or> (\<exists>p. r' = r\<lparr>m_objectsToRemove := m_objectsToRemove r @ [p]\<rparr>)"
    by (rule RequestRemoveObject_Inr)
  with assms(2) show ?thesis by (auto simp: step_relation_def locks_free_def)
next
  case (Enumerate fn)
  with assms have "r' = drained r" using ForEach_Inr [of fn r s r' s'] by simp
  with assms(2) Enumerate show ?thesis
    by (simp add: step_relation_def locks_free_drained distinct_drained generation_drained)
qed

lemma run_invariants:
  assumes "run qs (r, s) = Inr (r', s')" and "locks_free r"
  shows "locks_free r' \<and> (distinct (m_objects r) \<longrightarrow> distinct (m_objects r')) \<and>
         unat (m_generationId r') \<le> unat (m_generationId r) + enumerations qs \<and>
         (unat (m_generationId r) + enumerations qs < 2 ^ 32
            \<longrightarrow> unat (m_generationId r) \<le> unat (m_generationId r'))"
  using assms
proof (induction qs arbitrary: r s)
  case Nil
  then show ?case by simp
next
  case (Cons q qs)
  from Cons.prems(1) obtain r1 s1 where
    st: "request_step q (r, s) = Inr (r1, s1)" and rest: "run qs (r1, s1) = Inr (r', s')"
    by (auto simp: and_then_def split: sum.splits)
  from st Cons.prems(2) have rel: "step_relation q r r1" by (rule request_step_relation)
  then have lf: "locks_free r1" by (simp add: step_relation_def)
  note ih = Cons.IH [OF rest lf]
  have e: "enumerations (q # qs) = enumerations [q] + enumerations qs"
    by (cases q) simp_all
  from rel have g: "m_generationId r1 = m_generationId r \<or>
       (enumerations [q] = 1 \<and> m_generationId r1 = m_generationId r + 1)"
    by (simp add: step_relation_def)
  have up: "unat (m_generationId r1) \<le> unat (m_generationId r) + enumerations [q]"
    using g by (auto simp: unat_word_ariths intro: order_trans [OF mod_less_eq_dividend])
  have mono: "unat (m_generationId r) \<le> unat (m_generationId r1)"
    if "unat (m_generationId r) + enumerations [q] < 2 ^ 32"
    using g that by (auto simp: unat_word_ariths)
  show ?case
    using ih rel up mono e by (auto simp: step_relation_def)
qed

lemma locks_free_new: "locks_free DObjectRegistry_new"
  by (simp add: locks_free_def DObjectRegistry_new_def)

section \<open>The enumeration of a view in closed form\<close>

lemma for_each_collect:
  "for_each (collect qi T r0) xs cache = cache @ filter (\<lambda>ob. HasInterface_T qi ob T) xs"
  by (induction xs arbitrary: cache) (simp_all add: collect_def)

lemma ForEach_c_stale:
  assumes "locks_free r" and "\<not> m_objectsLock_c v" and "m_generationId_c v \<noteq> m_generationId r"
  shows "ForEach_c qi T (Some fn) (v, r, s) =
           Inr (v\<lparr>m_objects_c := filter (\<lambda>ob. HasInterface_T qi ob T) (m_objects (drained r)),
                  m_generationId_c := m_generationId (drained r)\<rparr>,
                drained r,
                for_each (fn (drained r))
                  (filter (\<lambda>ob. HasInterface_T qi ob T) (m_objects (drained r))) s)"
  using assms(2,3) ForEach_drained [OF assms(1), of "collect qi T" "[]"]
  by (cases v)
     (simp add: ForEach_c_def and_then_def lock_c_def unlock_c_def GetGenerationId_def
        for_each_collect)

lemma ForEach_c_fresh:
  assumes "\<not> m_objectsLock_c v" and "m_generationId_c v = m_generationId r"
  shows "ForEach_c qi T (Some fn) (v, r, s) = Inr (v, r, for_each (fn r) (m_objects_c v) s)"
  using assms
  by (cases v) (simp add: ForEach_c_def and_then_def lock_c_def unlock_c_def GetGenerationId_def)

section \<open>The log of an enumeration\<close>

lemma enumeration_log_Nil: "enumeration_log [] []"
  by (simp add: enumeration_log_def cancellation_is_last_def)

lemma enumeration_log_cancel: "enumeration_log (x # xs) [(x, CancellationRequested)]"
  by (simp add: enumeration_log_def cancellation_is_last_def)

lemma enumeration_log_Ok:
  assumes "enumeration_log xs vis"
  shows "enumeration_log (x # xs) ((x, Ok) # vis)"
proof -
  from assms have m: "map fst vis = take (length vis) xs"
    and c: "\<forall>k<length vis. snd (vis ! k) = CancellationRequested \<longrightarrow> Suc k = length vis"
    and e: "length vis = length xs \<or> (vis \<noteq> [] \<and> snd (last vis) = CancellationRequested)"
    by (simp_all add: enumeration_log_def cancellation_is_last_def)
  have "Suc k = length ((x, Ok) # vis)"
    if "k < length ((x, Ok) # vis)" "snd (((x, Ok) # vis) ! k) = CancellationRequested" for k
    using that c by (cases k) auto
  then have "cancellation_is_last ((x, Ok) # vis)"
    unfolding cancellation_is_last_def by blast
  with m e show ?thesis by (auto simp: enumeration_log_def)
qed

lemma for_each_observe:
  "\<exists>s' vis. for_each (observe fn r) xs (s, log0) = (s', log0 @ vis) \<and> enumeration_log xs vis"
proof (induction xs arbitrary: s log0)
  case Nil
  show ?case by (simp add: enumeration_log_Nil)
next
  case (Cons x xs)
  obtain res s1 where f: "fn r x s = (res, s1)" by (cases "fn r x s")
  show ?case
  proof (cases res)
    case Ok
    from Cons.IH [of s1 "log0 @ [(x, Ok)]"] obtain s' vis where
      "for_each (observe fn r) xs (s1, log0 @ [(x, Ok)]) = (s', (log0 @ [(x, Ok)]) @ vis)"
      and "enumeration_log xs vis" by blast
    with f Ok have "for_each (observe fn r) (x # xs) (s, log0) = (s', log0 @ ((x, Ok) # vis))
        \<and> enumeration_log (x # xs) ((x, Ok) # vis)"
      by (simp add: observe_def enumeration_log_Ok)
    then show ?thesis by blast
  next
    case CancellationRequested
    with f have "for_each (observe fn r) (x # xs) (s, log0) = (s1, log0 @ [(x, CancellationRequested)])"
      by (simp add: observe_def)
    with enumeration_log_cancel [of x xs] show ?thesis by blast
  qed
qed

lemma for_each_deref_observe:
  assumes "\<forall>ob\<in>set xs. qi ob T \<noteq> None"
  shows "\<exists>s' vis. for_each (deref_predicate qi T (observe g) r) xs (Inr (s, log0))
                     = Inr (s', log0 @ vis) \<and>
           enumeration_log (map (\<lambda>ob. qi ob T) xs) (map (\<lambda>(p, res). (Some p, res)) vis)"
  using assms
proof (induction xs arbitrary: s log0)
  case Nil
  show ?case by (simp add: enumeration_log_Nil)
next
  case (Cons x xs)
  from Cons.prems obtain p where p: "qi x T = Some p" by auto
  obtain res s1 where f: "g r p s = (res, s1)" by (cases "g r p s")
  from Cons.prems have rest: "\<forall>ob\<in>set xs. qi ob T \<noteq> None" by simp
  show ?case
  proof (cases res)
    case Ok
    from Cons.IH [OF rest, of s1 "log0 @ [(p, Ok)]"] obtain s' vis where
      "for_each (deref_predicate qi T (observe g) r) xs (Inr (s1, log0 @ [(p, Ok)]))
         = Inr (s', (log0 @ [(p, Ok)]) @ vis)"
      and "enumeration_log (map (\<lambda>ob. qi ob T) xs) (map (\<lambda>(p, res). (Some p, res)) vis)" by blast
    with f p Ok have "for_each (deref_predicate qi T (observe g) r) (x # xs) (Inr (s, log0))
         = Inr (s', log0 @ ((p, Ok) # vis)) \<and>
       enumeration_log (map (\<lambda>ob. qi ob T) (x # xs)) (map (\<lambda>(p, res). (Some p, res)) ((p, Ok) # vis))"
      by (simp add: deref_predicate_def QueryInterface_T_def observe_def enumeration_log_Ok)
    then show ?thesis by blast
  next
    case CancellationRequested
    with f p have "for_each (deref_predicate qi T (observe g) r) (x # xs) (Inr (s, log0))
         = Inr (s1, log0 @ [(p, CancellationRequested)])"
      by (simp add: deref_predicate_def QueryInterface_T_def observe_def)
    moreover have "enumeration_log (map (\<lambda>ob. qi ob T) (x # xs))
        (map (\<lambda>(p, res). (Some p, res)) [(p, CancellationRequested)])"
      using p by (simp add: enumeration_log_cancel)
    ultimately show ?thesis by blast
  qed
qed

lemma enumeration_log_Some:
  assumes "enumeration_log ys (map (\<lambda>(p, res). (Some p, res)) vis)"
  shows "map (\<lambda>e. Some (fst e)) vis = take (length vis) ys \<and> cancellation_is_last vis"
proof -
  let ?l = "map (\<lambda>(p, res). (Some p, res)) vis"
  have a: "map fst ?l = map (\<lambda>e. Some (fst e)) vis"
    by (induction vis) auto
  have b: "cancellation_is_last ?l = cancellation_is_last vis"
    by (simp add: cancellation_is_last_def split_def)
  from assms have "map fst ?l = take (length ?l) ys" and "cancellation_is_last ?l"
    unfolding enumeration_log_def by blast+
  then show ?thesis unfolding a b by simp
qed

section \<open>A run that brings the generation counter to its maximum\<close>

lemma set_refs: "set (refs ps) = {ob. Some ob \<in> set ps}"
  by (induction ps rule: refs.induct) auto

lemma churn_round:
  "run ([RemoveRequest (Some (DOtherExampleClass 0)) None, Enumerate (Some keep_going),
      AddRequest (Some (DOtherExampleClass 0)), Enumerate (Some keep_going)] @ qs) (registry_at g, ())
   = run qs (registry_at (g + 2), ())"
  by (simp add: registry_at_def and_then_def RequestRemoveObject_def RequestAddObject_def
        ForEach_def drain_def Let_def lock_objects_def unlock_objects_def lock_objectsToAdd_def
        unlock_objectsToAdd_def lock_objectsToRemove_def unlock_objectsToRemove_def
        swap_remove_def keep_going_def add.commute)

lemma run_churn: "run (churn n) (registry_at g, ()) = Inr (registry_at (g + 2 * of_nat n), ())"
proof (induction n arbitrary: g)
  case 0
  show ?case by simp
next
  case (Suc n)
  have "run (churn (Suc n)) (registry_at g, ()) = run (churn n) (registry_at (g + 2), ())"
    unfolding churn.simps by (rule churn_round)
  also have "\<dots> = Inr (registry_at (g + 2 + 2 * of_nat n), ())" by (rule Suc.IH)
  finally show ?case by (simp add: algebra_simps)
qed

lemma run_wrap_requests: "run wrap_requests (DObjectRegistry_new, ()) = Inr (registry_at UINT_MAX, ())"
proof -
  have "run wrap_requests (DObjectRegistry_new, ()) = run (churn 2147483647) (registry_at 1, ())"
    unfolding wrap_requests_def
    by (simp add: DObjectRegistry_new_def registry_at_def and_then_def RequestAddObject_def
        ForEach_def drain_def Let_def lock_objects_def unlock_objects_def lock_objectsToAdd_def
        unlock_objectsToAdd_def lock_objectsToRemove_def unlock_objectsToRemove_def
        keep_going_def del: churn.simps)
  also have "\<dots> = Inr (registry_at (1 + 2 * of_nat 2147483647), ())" by (rule run_churn)
  also have "(1 + 2 * of_nat 2147483647 :: 32 word) = UINT_MAX" by (simp add: UINT_MAX_def)
  finally show ?thesis .
qed

lemma kept_by_drain:
  assumes "ob \<in> set (m_objects r) \<or> ob \<in> set (m_objectsToAdd r)"
    and "Some ob \<notin> set (m_objectsToRemove r)"
  shows "ob \<in> set (m_objects (drained r))"
proof -
  from assms(2) have "ob \<notin> set (refs (m_objectsToRemove r))" by (simp add: set_refs)
  then have z: "count (mset (refs (m_objectsToRemove r))) ob = 0" by (simp add: count_eq_zero_iff)
  have c: "1 \<le> count (mset (m_objects r) + mset_set (set (m_objectsToAdd r) - set (m_objects r))) ob"
  proof (cases "ob \<in> set (m_objects r)")
    case True
    then have "1 \<le> count (mset (m_objects r)) ob" by (simp add: count_greater_eq_one_iff)
    then show ?thesis by simp
  next
    case False
    with assms(1) show ?thesis by (simp add: count_mset_set')
  qed
  have "count (mset (m_objects (drained r))) ob =
          count (mset (m_objects r) + mset_set (set (m_objectsToAdd r) - set (m_objects r))) ob
            - count (mset (refs (m_objectsToRemove r))) ob"
    unfolding mset_drained by simp
  also have "\<dots> = count (mset (m_objects r) + mset_set (set (m_objectsToAdd r) - set (m_objects r))) ob"
    by (simp only: z diff_zero)
  finally have "1 \<le> count (mset (m_objects (drained r))) ob" using c by simp
  then show ?thesis by (simp add: count_greater_eq_one_iff)
qed

lemma enumeration_log_all_Ok:
  assumes "enumeration_log xs log" and "\<forall>e\<in>set log. snd e = Ok"
  shows "map fst log = xs"
proof -
  from assms(1) have m: "map fst log = take (length log) xs"
    and e: "length log = length xs \<or> (log \<noteq> [] \<and> snd (last log) = CancellationRequested)"
    by (simp_all add: enumeration_log_def)
  have "length log = length xs"
  proof (rule ccontr)
    assume "length log \<noteq> length xs"
    with e have "log \<noteq> []" and "snd (last log) = CancellationRequested" by simp_all
    moreover from \<open>log \<noteq> []\<close> have "last log \<in> set log" by simp
    ultimately show False using assms(2) by auto
  qed
  with m show ?thesis by simp
qed

section \<open>Views and later requests\<close>

lemma process_additions_present:
  "\<forall>x\<in>set as. x \<in> set objs \<Longrightarrow> process_additions as (objs, ch) = (objs, ch)"
  by (induction as) (simp_all add: std_find_end)

lemma process_removals_absent:
  "\<forall>ob\<in>set (refs ps). ob \<notin> set objs \<Longrightarrow> process_removals ps (objs, ch) = (objs, ch)"
proof (induction ps)
  case Nil
  show ?case by simp
next
  case (Cons it rest)
  show ?case
  proof (cases it)
    case None
    with Cons show ?thesis by simp
  next
    case (Some ob)
    with Cons.prems have "ob \<notin> set objs" by simp
    then have "std_find objs ob = length objs" by (simp add: std_find_end)
    with Some Cons show ?thesis by simp
  qed
qed

lemma drained_unchanged:
  assumes "\<not> structural_change r"
  shows "m_objects (drained r) = m_objects r"
proof -
  from assms have a: "\<forall>x\<in>set (m_objectsToAdd r). x \<in> set (m_objects r)"
    and b: "\<forall>ob\<in>set (refs (m_objectsToRemove r)). ob \<notin> set (m_objects r)"
    by (auto simp: structural_change_def)
  show ?thesis
    by (simp add: drained_def process_additions_present [OF a] process_removals_absent [OF b])
qed

lemma request_step_objects:
  assumes "request_step q (r, s) = Inr (r', s')" and "locks_free r"
  shows "(m_generationId r' = m_generationId r \<and> m_objects r' = m_objects r) \<or>
         (enumerations [q] = 1 \<and> m_generationId r' = m_generationId r + 1)"
proof (cases q)
  case (AddRequest in_object)
  with assms(1) obtain r1 where "RequestAddObject in_object r = Inr r1" and "r' = r1"
    by (auto simp: and_then_def split: sum.splits)
  then obtain ob where "r' = r\<lparr>m_objectsToAdd := m_objectsToAdd r @ [ob]\<rparr>"
    using RequestAddObject_Inr by blast
  then show ?thesis by simp
next
  case (RemoveRequest in_object fn)
  with assms(1) have "RequestRemoveObject in_object fn (r, s) = Inr (r', s')" by simp
  then have "r' = r \<or> (\<exists>p. r' = r\<lparr>m_objectsToRemove := m_objectsToRemove r @ [p]\<rparr>)"
    by (rule RequestRemoveObject_Inr)
  then show ?thesis by auto
next
  case (Enumerate fn)
  with assms have "r' = drained r" using ForEach_Inr [of fn r s r' s'] by simp
  with Enumerate show ?thesis
    by (cases "structural_change r") (simp_all add: generation_drained drained_unchanged)
qed

lemma run_changes:
  assumes "run qs (r, s) = Inr (r2, s2)" and "locks_free r"
  shows "\<exists>k\<le>enumerations qs. m_generationId r2 = m_generationId r + of_nat k \<and>
           (k = 0 \<longrightarrow> m_objects r2 = m_objects r)"
  using assms
proof (induction qs arbitrary: r s)
  case Nil
  then show ?case by simp
next
  case (Cons q qs)
  from Cons.prems(1) obtain r1 s1 where
    st: "request_step q (r, s) = Inr (r1, s1)" and rest: "run qs (r1, s1) = Inr (r2, s2)"
    by (auto simp: and_then_def split: sum.splits)
  from st Cons.prems(2) have "step_relation q r r1" by (rule request_step_relation)
  then have lf: "locks_free r1" by (simp add: step_relation_def)
  from Cons.IH [OF rest lf] obtain k where k: "k \<le> enumerations qs"
    "m_generationId r2 = m_generationId r1 + of_nat k" "k = 0 \<longrightarrow> m_objects r2 = m_objects r1"
    by blast
  have e: "enumerations (q # qs) = enumerations [q] + enumerations qs"
    by (cases q) simp_all
  from request_step_objects [OF st Cons.prems(2)] show ?case
  proof
    assume "m_generationId r1 = m_generationId r \<and> m_objects r1 = m_objects r"
    with k e have "k \<le> enumerations (q # qs) \<and> m_generationId r2 = m_generationId r + of_nat k \<and>
           (k = 0 \<longrightarrow> m_objects r2 = m_objects r)" by simp
    then show ?thesis by blast
  next
    assume "enumerations [q] = 1 \<and> m_generationId r1 = m_generationId r + 1"
    with k e have "Suc k \<le> enumerations (q # qs) \<and>
        m_generationId r2 = m_generationId r + of_nat (Suc k) \<and>
        (Suc k = 0 \<longrightarrow> m_objects r2 = m_objects r)" by simp
    then show ?thesis by blast
  qed
qed

lemma view_stays_in_step:
  fixes r :: "'o DObjectRegistry"
  assumes "run qs (r, s) = Inr (r2, s2)" and "locks_free r"
    and "enumerations qs < 2 ^ 32"
    and "m_objects_c v = filter (\<lambda>ob. HasInterface_T qi ob T) (m_objects r)"
    and "m_generationId_c v = m_generationId r"
  shows "view_in_step qi T v r2"
proof (cases "m_generationId r2 = m_generationId r")
  case False
  with assms(5) show ?thesis by (simp add: view_in_step_def)
next
  case True
  from run_changes [OF assms(1,2)] obtain k where k: "k \<le> enumerations qs"
    "m_generationId r2 = m_generationId r + of_nat k" "k = 0 \<longrightarrow> m_objects r2 = m_objects r"
    by blast
  from True k(2) have "(of_nat k :: 32 word) = 0" by simp
  then have "2 ^ 32 dvd k" by (simp add: word_of_nat_eq_0_iff)
  moreover from k(1) assms(3) have "k < 2 ^ 32" by simp
  ultimately have "k = 0" by (meson dvd_imp_le not_less zero_less_iff_neq_zero)
  with k(3) assms(4) show ?thesis by (simp add: view_in_step_def)
qed

lemma run_append: "run (qs @ qs') rs = and_then (run qs rs) (run qs')"
proof (induction qs arbitrary: rs)
  case Nil
  show ?case by (simp add: and_then_def)
next
  case (Cons q qs)
  show ?case by (cases "request_step q rs") (simp_all add: and_then_def Cons.IH)
qed

lemma for_each_keep: "for_each (\<lambda>ob s. (Ok, s)) xs s = s"
  by (induction xs) simp_all

lemma run_then_drain:
  assumes "run qs (r0, s0) = Inr (r, s1)" and "locks_free r"
  shows "run (qs @ [Enumerate (Some (\<lambda>r ob s. (Ok, s)))]) (r0, s0) = Inr (drained r, s1)"
  using assms(1) ForEach_drained [OF assms(2), of "\<lambda>r ob s. (Ok, s)" s1]
  by (simp add: run_append and_then_def for_each_keep)

section \<open>The claims\<close>

text \<open>
  C8. The three calling conventions of the capability query resolve through the same
  \<open>QueryInterfaceByTypeId\<close>: the typed form and the identifier form return the resolved
  pointer; the typed form is not null exactly when the identifier form is not null,
  exactly when the form with an output parameter returns true; that form stores the
  resolved pointer through its output parameter; and \<open>HasInterface\<close>, typed or by
  identifier, is true exactly when the resolved pointer is not null.
\<close>

theorem query_forms_agree:
  "QueryInterface_T qi ob T = qi ob T \<and>
   QueryInterface_id qi ob T = qi ob T \<and>
   QueryInterface_out qi ob T = (qi ob T \<noteq> None, qi ob T) \<and>
   (QueryInterface_T qi ob T \<noteq> None) = (QueryInterface_id qi ob T \<noteq> None) \<and>
   (QueryInterface_id qi ob T \<noteq> None) = fst (QueryInterface_out qi ob T) \<and>
   snd (QueryInterface_out qi ob T) = QueryInterface_T qi ob T \<and>
   HasInterface_T qi ob T = (QueryInterface_T qi ob T \<noteq> None) \<and>
   HasInterface_id qi ob T = (QueryInterface_id qi ob T \<noteq> None)"
  by (simp add: QueryInterface_T_def QueryInterface_id_def QueryInterface_out_def
        HasInterface_T_def HasInterface_id_def Let_def)

text \<open>
  C9. \<open>RequestAddObject\<close> of an object that is not null, on a registry whose add-queue
  lock is free, returns, and the registry it leaves is the one it was given with the
  object appended to the pending-add queue: the materialized set, the pending-remove
  queue, the generation counter and the three locks are as before.
\<close>

theorem RequestAddObject_frame:
  assumes "\<not> m_objectsToAddLock r"
  shows "\<exists>r'. RequestAddObject (Some ob) r = Inr r' \<and>
           r' = r\<lparr>m_objectsToAdd := m_objectsToAdd r @ [ob]\<rparr> \<and>
           m_objectsToAdd r' = m_objectsToAdd r @ [ob] \<and>
           m_objects r' = m_objects r \<and>
           m_objectsToRemove r' = m_objectsToRemove r \<and>
           m_generationId r' = m_generationId r \<and>
           m_objectsLock r' = m_objectsLock r \<and>
           m_objectsToAddLock r' = m_objectsToAddLock r \<and>
           m_objectsToRemoveLock r' = m_objectsToRemoveLock r"
  using assms by (simp add: RequestAddObject_eq)

theorem RequestAddObject_frame_witness:
  "\<not> m_objectsToAddLock example_registry \<and>
   RequestAddObject (Some 5) example_registry =
     Inr \<lparr>m_objects = [1, 2], m_objectsToAdd = [2, 3, 5], m_objectsToRemove = [Some 1, Some 4],
          m_objectsLock = False, m_objectsToAddLock = False, m_objectsToRemoveLock = False,
          m_generationId = 7\<rparr>"
  using RequestAddObject_frame [of example_registry 5]
  by (simp add: example_registry_def)

text \<open>
  C10. Whenever the registry's \<open>ForEach\<close> returns, both pending queues are empty. On a
  registry whose locks are free it does return; the materialized set it leaves is, as a
  multiset, the old one with the pending additions not yet in it, less the pending
  removals; and a second \<open>ForEach\<close> right after it leaves the registry as it is, so that
  a pending entry that changed nothing is not tried again.
\<close>

theorem ForEach_empties_queues:
  "(ForEach fn (r, s) = Inr (r', s') \<longrightarrow> m_objectsToAdd r' = [] \<and> m_objectsToRemove r' = []) \<and>
   (locks_free r \<longrightarrow>
      (\<exists>r1 s1. ForEach (Some f) (r, s) = Inr (r1, s1) \<and>
         m_objectsToAdd r1 = [] \<and> m_objectsToRemove r1 = [] \<and>
         mset (m_objects r1) =
           mset (m_objects r) + mset_set (set (m_objectsToAdd r) - set (m_objects r))
             - mset (refs (m_objectsToRemove r)) \<and>
         (\<exists>s2. ForEach (Some g) (r1, s1) = Inr (r1, s2))))"
proof -
  have a: "m_objectsToAdd r' = [] \<and> m_objectsToRemove r' = []" if "ForEach fn (r, s) = Inr (r', s')"
  proof (cases "m_objectsToAdd r \<noteq> [] \<or> m_objectsToRemove r \<noteq> []")
    case True
    with that show ?thesis
      by (cases r)
         (auto simp: ForEach_def drain_def and_then_def Let_def lock_objects_def unlock_objects_def
            lock_objectsToAdd_def unlock_objectsToAdd_def lock_objectsToRemove_def
            unlock_objectsToRemove_def split: option.splits if_splits prod.splits)
  next
    case False
    with that show ?thesis
      by (cases r)
         (auto simp: ForEach_def and_then_def lock_objects_def unlock_objects_def
            split: option.splits if_splits)
  qed
  have b: "\<exists>r1 s1. ForEach (Some f) (r, s) = Inr (r1, s1) \<and>
         m_objectsToAdd r1 = [] \<and> m_objectsToRemove r1 = [] \<and>
         mset (m_objects r1) =
           mset (m_objects r) + mset_set (set (m_objectsToAdd r) - set (m_objects r))
             - mset (refs (m_objectsToRemove r)) \<and>
         (\<exists>s2. ForEach (Some g) (r1, s1) = Inr (r1, s2))" if lf: "locks_free r"
  proof -
    have "locks_free (drained r)" using lf by (simp add: locks_free_drained)
    then have "ForEach (Some g) (drained r, s1) = Inr (drained (drained r),
        for_each (g ((drained (drained r))\<lparr>m_objectsLock := True\<rparr>)) (m_objects (drained (drained r))) s1)" for s1
      by (rule ForEach_drained)
    moreover have "drained (drained r) = drained r"
      by (simp add: drained_idle drained_queues)
    ultimately show ?thesis
      using ForEach_drained [OF lf, of f s] by (simp add: drained_queues mset_drained)
  qed
  from a b show ?thesis by blast
qed

theorem ForEach_empties_queues_witness:
  "locks_free example_registry \<and>
   ForEach (Some visit_all) (example_registry, 0) =
     Inr (\<lparr>m_objects = [3, 2], m_objectsToAdd = [], m_objectsToRemove = [],
           m_objectsLock = False, m_objectsToAddLock = False, m_objectsToRemoveLock = False,
           m_generationId = 8\<rparr>, 2) \<and>
   ForEach (Some visit_all) (\<lparr>m_objects = [3, 2], m_objectsToAdd = [], m_objectsToRemove = [],
           m_objectsLock = False, m_objectsToAddLock = False, m_objectsToRemoveLock = False,
           m_generationId = 8\<rparr>, 2) =
     Inr (\<lparr>m_objects = [3, 2], m_objectsToAdd = [], m_objectsToRemove = [],
           m_objectsLock = False, m_objectsToAddLock = False, m_objectsToRemoveLock = False,
           m_generationId = 8\<rparr>, 4)"
  using ForEach_empties_queues [of "Some visit_all" example_registry 0 _ _ visit_all visit_all]
  by (simp add: example_registry_def locks_free_def ForEach_def drain_def and_then_def
        lock_objects_def unlock_objects_def lock_objectsToAdd_def unlock_objectsToAdd_def
        lock_objectsToRemove_def unlock_objectsToRemove_def swap_remove_def visit_all_def)

text \<open>
  C5. On a registry whose locks are free, \<open>ForEach\<close> returns and the materialized set it
  leaves is the result of the loop over the pending removals run on the result of the
  whole loop over the pending additions. So an object that was not in the materialized
  set and is in both queues at the drain is not in the materialized set after it.
\<close>

theorem additions_before_removals:
  assumes "locks_free r"
  shows "\<exists>r' s'. ForEach (Some fn) (r, s) = Inr (r', s') \<and>
           m_objects r' =
             fst (process_removals (m_objectsToRemove r)
                    (process_additions (m_objectsToAdd r) (m_objects r, False))) \<and>
           (ob \<in> set (m_objectsToAdd r) \<and> Some ob \<in> set (m_objectsToRemove r) \<and>
            ob \<notin> set (m_objects r) \<longrightarrow> ob \<notin> set (m_objects r'))"
proof -
  have a: "m_objects (drained r) =
             fst (process_removals (m_objectsToRemove r)
                    (process_additions (m_objectsToAdd r) (m_objects r, False)))"
    by (simp add: drained_def split: prod.splits)
  have b: "ob \<notin> set (m_objects (drained r))"
    if "ob \<in> set (m_objectsToAdd r)" "Some ob \<in> set (m_objectsToRemove r)" "ob \<notin> set (m_objects r)"
  proof -
    from that(2) have "ob \<in> set (refs (m_objectsToRemove r))" by (simp add: set_refs)
    then have "1 \<le> count (mset (refs (m_objectsToRemove r))) ob" by (simp add: count_greater_eq_one_iff)
    moreover have "count (mset (m_objects r) + mset_set (set (m_objectsToAdd r) - set (m_objects r))) ob = 1"
      using that(1,3) by (simp add: count_mset_set' not_in_iff)
    ultimately have "count (mset (m_objects (drained r))) ob = 0"
      unfolding mset_drained by simp
    then show ?thesis by (simp add: count_eq_zero_iff)
  qed
  from a b ForEach_drained [OF assms, of fn s] show ?thesis by simp
qed

theorem additions_before_removals_witness:
  "locks_free \<lparr>m_objects = [1, 2], m_objectsToAdd = [3, 4::nat], m_objectsToRemove = [Some 3],
      m_objectsLock = False, m_objectsToAddLock = False, m_objectsToRemoveLock = False,
      m_generationId = 0\<rparr> \<and>
   ForEach (Some visit_all)
     (\<lparr>m_objects = [1, 2], m_objectsToAdd = [3, 4::nat], m_objectsToRemove = [Some 3],
      m_objectsLock = False, m_objectsToAddLock = False, m_objectsToRemoveLock = False,
      m_generationId = 0\<rparr>, 0) =
   Inr (\<lparr>m_objects = [1, 2, 4], m_objectsToAdd = [], m_objectsToRemove = [],
      m_objectsLock = False, m_objectsToAddLock = False, m_objectsToRemoveLock = False,
      m_generationId = 1\<rparr>, 3) \<and>
   (3::nat) \<in> set [3, 4] \<and> Some (3::nat) \<in> set [Some 3] \<and> (3::nat) \<notin> set [1, 2] \<and>
   (3::nat) \<notin> set [1, 2, 4]"
  using additions_before_removals [of "\<lparr>m_objects = [1, 2], m_objectsToAdd = [3, 4::nat],
      m_objectsToRemove = [Some 3],
      m_objectsLock = False, m_objectsToAddLock = False, m_objectsToRemoveLock = False,
      m_generationId = 0\<rparr>" visit_all 0 3]
  by (simp add: locks_free_def ForEach_def drain_def and_then_def Let_def
        lock_objects_def unlock_objects_def lock_objectsToAdd_def unlock_objectsToAdd_def
        lock_objectsToRemove_def unlock_objectsToRemove_def swap_remove_def visit_all_def)


text \<open>
  C3. In every registry reached from a new one by a sequence of requests (additions,
  removals with or without a predicate, enumerations) no object is twice in the
  materialized set. Adding an object twice and draining once then leaves exactly one
  occurrence of it, unless a removal of it was pending. The two additions may come from
  two threads: each is made under the lock of the add queue, and either order queues
  the object twice.
\<close>

theorem no_duplicates:
  assumes "run qs (DObjectRegistry_new, s0) = Inr (r, s)"
  shows "distinct (m_objects r) \<and>
         (Some ob \<notin> set (m_objectsToRemove r) \<longrightarrow>
            (\<exists>r' s'. run [AddRequest (Some ob), AddRequest (Some ob), Enumerate (Some fn)] (r, s)
                        = Inr (r', s') \<and>
               count_list (m_objects r') ob = 1))"
proof -
  from run_invariants [OF assms locks_free_new]
  have lf: "locks_free r" and d: "distinct (m_objects r)"
    by (simp_all add: DObjectRegistry_new_def)
  let ?r1 = "r\<lparr>m_objectsToAdd := m_objectsToAdd r @ [ob]\<rparr>"
  let ?r2 = "r\<lparr>m_objectsToAdd := m_objectsToAdd r @ [ob, ob]\<rparr>"
  from lf have a1: "RequestAddObject (Some ob) r = Inr ?r1"
    by (simp add: RequestAddObject_eq locks_free_def)
  from lf have a2: "RequestAddObject (Some ob) ?r1 = Inr ?r2"
    by (simp add: RequestAddObject_eq locks_free_def)
  from lf have lf2: "locks_free ?r2" by (simp add: locks_free_def)
  have run: "run [AddRequest (Some ob), AddRequest (Some ob), Enumerate (Some fn)] (r, s) =
      Inr (drained ?r2, for_each (fn ((drained ?r2)\<lparr>m_objectsLock := True\<rparr>)) (m_objects (drained ?r2)) s)"
    using a1 a2 ForEach_drained [OF lf2, of fn s] by (simp add: and_then_def)
  have "count (mset (m_objects (drained ?r2))) ob = 1" if "Some ob \<notin> set (m_objectsToRemove r)"
  proof -
    from that have "ob \<notin> set (refs (m_objectsToRemove r))" by (simp add: set_refs)
    then have z: "count (mset (refs (m_objectsToRemove r))) ob = 0" by (simp add: count_eq_zero_iff)
    have c: "count (mset (m_objects r) + mset_set (set (m_objectsToAdd ?r2) - set (m_objects r))) ob = 1"
      using d by (cases "ob \<in> set (m_objects r)") (simp_all add: count_mset_set' distinct_count_atmost_1 not_in_iff)
    have "count (mset (m_objects (drained ?r2))) ob =
            count (mset (m_objects r) + mset_set (set (m_objectsToAdd ?r2) - set (m_objects r))) ob
              - count (mset (refs (m_objectsToRemove r))) ob"
      unfolding mset_drained by simp
    also have "\<dots> = 1" by (simp only: c z)
    finally show ?thesis .
  qed
  then have "count_list (m_objects (drained ?r2)) ob = 1" if "Some ob \<notin> set (m_objectsToRemove r)"
    using that by (simp add: count_mset)
  with d run show ?thesis by simp
qed

theorem no_duplicates_witness:
  "run [AddRequest (Some (1::nat)), Enumerate (Some visit_all), AddRequest (Some 2)]
     (DObjectRegistry_new, 0) =
     Inr (\<lparr>m_objects = [1], m_objectsToAdd = [2], m_objectsToRemove = [],
           m_objectsLock = False, m_objectsToAddLock = False, m_objectsToRemoveLock = False,
           m_generationId = 1\<rparr>, 1) \<and>
   distinct [1::nat] \<and> Some (1::nat) \<notin> set [] \<and>
   run [AddRequest (Some 1), AddRequest (Some 1), Enumerate (Some visit_all)]
     (\<lparr>m_objects = [1::nat], m_objectsToAdd = [2], m_objectsToRemove = [],
           m_objectsLock = False, m_objectsToAddLock = False, m_objectsToRemoveLock = False,
           m_generationId = 1\<rparr>, 1) =
     Inr (\<lparr>m_objects = [1, 2], m_objectsToAdd = [], m_objectsToRemove = [],
           m_objectsLock = False, m_objectsToAddLock = False, m_objectsToRemoveLock = False,
           m_generationId = 2\<rparr>, 3) \<and>
   count_list [1::nat, 2] 1 = 1"
  using no_duplicates [of "[AddRequest (Some (1::nat)), Enumerate (Some visit_all), AddRequest (Some 2)]"
      0 _ _ 1 visit_all]
  by (simp add: DObjectRegistry_new_def RequestAddObject_def ForEach_def drain_def and_then_def Let_def
        lock_objects_def unlock_objects_def lock_objectsToAdd_def unlock_objectsToAdd_def
        lock_objectsToRemove_def unlock_objectsToRemove_def swap_remove_def visit_all_def)

text \<open>
  C2, as stated, fails where the counter wraps. The requests \<open>wrap_requests\<close> bring a
  new registry to the generation \<open>UINT_MAX\<close>; one more removal and a drain that makes a
  structural change leave it at the generation 0, which is less.
\<close>

theorem generation_wraps_counterexample:
  "run wrap_requests (DObjectRegistry_new, ()) = Inr (registry_at UINT_MAX, ()) \<and>
   run [RemoveRequest (Some (DOtherExampleClass 0)) None, Enumerate (Some keep_going)]
     (registry_at UINT_MAX, ()) =
     Inr ((registry_at 0)\<lparr>m_objects := []\<rparr>, ()) \<and>
   m_generationId ((registry_at 0)\<lparr>m_objects := []\<rparr>) < m_generationId (registry_at UINT_MAX)"
proof -
  have "run [RemoveRequest (Some (DOtherExampleClass 0)) None, Enumerate (Some keep_going)]
     (registry_at UINT_MAX, ()) = Inr ((registry_at 0)\<lparr>m_objects := []\<rparr>, ())"
    by (simp add: registry_at_def UINT_MAX_def and_then_def RequestRemoveObject_def
        ForEach_def drain_def Let_def lock_objects_def unlock_objects_def lock_objectsToAdd_def
        unlock_objectsToAdd_def lock_objectsToRemove_def unlock_objectsToRemove_def
        swap_remove_def keep_going_def)
  moreover have "m_generationId ((registry_at 0)\<lparr>m_objects := []\<rparr>) < m_generationId (registry_at UINT_MAX)"
    by (simp add: registry_at_def UINT_MAX_def)
  ultimately show ?thesis using run_wrap_requests by simp
qed

text \<open>
  C2, amended. On a registry whose locks are free, \<open>ForEach\<close> returns, and the generation
  it leaves is the old one plus 1 modulo \<open>2 ^ 32\<close> when the drain made a structural
  change, and the old one otherwise, also when the queues were not empty. Below
  \<open>UINT_MAX\<close> the step is by exactly 1 or 0 as a number. Over a sequence of requests
  with fewer calls of \<open>ForEach\<close> than there are steps left to \<open>2 ^ 32\<close>, the generation
  does not decrease and grows by the number of those calls at most.
\<close>

theorem generation_step:
  assumes "locks_free r"
  shows "(\<exists>r' s'. ForEach (Some fn) (r, s) = Inr (r', s') \<and>
            m_generationId r' =
              (if structural_change r then m_generationId r + 1 else m_generationId r) \<and>
            (m_generationId r \<noteq> UINT_MAX \<longrightarrow>
               unat (m_generationId r') =
                 unat (m_generationId r) + (if structural_change r then 1 else 0))) \<and>
         (run qs (r, s) = Inr (r'', s'') \<and> unat (m_generationId r) + enumerations qs < 2 ^ 32
            \<longrightarrow> m_generationId r \<le> m_generationId r'' \<and>
                unat (m_generationId r'') \<le> unat (m_generationId r) + enumerations qs)"
proof -
  have "unat (m_generationId r + 1) = unat (m_generationId r) + 1" if "m_generationId r \<noteq> UINT_MAX"
  proof -
    have e: "(- 1 :: 32 word) = UINT_MAX" by (simp add: UINT_MAX_def)
    from that have "m_generationId r \<noteq> - 1" unfolding e .
    then have "1 + m_generationId r \<noteq> 0"
      by (metis add.commute add_eq_0_iff)
    then have "unat (1 + m_generationId r) = Suc (unat (m_generationId r))" by (rule unatSuc)
    then show ?thesis by (simp add: add.commute)
  qed
  then have a: "\<exists>r' s'. ForEach (Some fn) (r, s) = Inr (r', s') \<and>
            m_generationId r' =
              (if structural_change r then m_generationId r + 1 else m_generationId r) \<and>
            (m_generationId r \<noteq> UINT_MAX \<longrightarrow>
               unat (m_generationId r') =
                 unat (m_generationId r) + (if structural_change r then 1 else 0))"
    using ForEach_drained [OF assms, of fn s] by (simp add: generation_drained)
  have b: "m_generationId r \<le> m_generationId r'' \<and>
           unat (m_generationId r'') \<le> unat (m_generationId r) + enumerations qs"
    if "run qs (r, s) = Inr (r'', s'')" "unat (m_generationId r) + enumerations qs < 2 ^ 32"
    using run_invariants [OF that(1) assms] that(2) by (simp add: word_le_nat_alt)
  from a b show ?thesis by blast
qed

theorem generation_step_witness:
  "locks_free example_registry \<and>
   ForEach (Some visit_all) (example_registry, 0) =
     Inr (\<lparr>m_objects = [3, 2], m_objectsToAdd = [], m_objectsToRemove = [],
           m_objectsLock = False, m_objectsToAddLock = False, m_objectsToRemoveLock = False,
           m_generationId = 8\<rparr>, 2) \<and>
   m_generationId example_registry \<noteq> UINT_MAX \<and>
   run [AddRequest (Some 2), Enumerate (Some visit_all)] (example_registry, 0) =
     Inr (\<lparr>m_objects = [3, 2], m_objectsToAdd = [], m_objectsToRemove = [],
           m_objectsLock = False, m_objectsToAddLock = False, m_objectsToRemoveLock = False,
           m_generationId = 8\<rparr>, 2) \<and>
   unat (m_generationId example_registry) + enumerations [AddRequest (Some 2), Enumerate (Some visit_all)] < 2 ^ 32 \<and>
   m_generationId example_registry \<le> 8"
  using generation_step [of example_registry visit_all 0 "[AddRequest (Some 2), Enumerate (Some visit_all)]"]
  by (simp add: example_registry_def locks_free_def structural_change_def UINT_MAX_def
        RequestAddObject_def ForEach_def drain_def and_then_def Let_def
        lock_objects_def unlock_objects_def lock_objectsToAdd_def unlock_objectsToAdd_def
        lock_objectsToRemove_def unlock_objectsToRemove_def swap_remove_def visit_all_def)

text \<open>
  C7. A newly created view is meant to be stale against every registry: its cached
  generation starts at \<open>UINT_MAX\<close> while the registry's starts at 0. The code misses the
  one generation at which the two are equal. The requests \<open>wrap_requests\<close> bring a new
  registry to the generation \<open>UINT_MAX\<close>, with one object in it that has the capability
  \<open>DFooInterface\<close>. The generation of a newly created view compares equal to it, and
  the first \<open>ForEach\<close> on the view does not rebuild: the cache stays empty, the
  predicate is called on nothing and the view is left as it was created, where the
  claim has the registered object enumerated.
\<close>

theorem new_view_at_UINT_MAX_skips_rebuild:
  "run wrap_requests (DObjectRegistry_new, ()) = Inr (registry_at UINT_MAX, ()) \<and>
   m_generationId_c (CreateInterfaceCollection :: example_object DInterfaceCollection)
     = GetGenerationId (registry_at UINT_MAX) \<and>
   m_objects (registry_at UINT_MAX) = [DOtherExampleClass 0] \<and>
   HasInterface_T example_QueryInterfaceByTypeId (DOtherExampleClass 0) DFooInterface \<and>
   ForEach_c example_QueryInterfaceByTypeId DFooInterface (Some visit_all)
     (CreateInterfaceCollection, registry_at UINT_MAX, 0) =
     Inr (CreateInterfaceCollection, registry_at UINT_MAX, 0)"
proof -
  have "ForEach_c example_QueryInterfaceByTypeId DFooInterface (Some visit_all)
     (CreateInterfaceCollection, registry_at UINT_MAX, 0) =
     Inr (CreateInterfaceCollection, registry_at UINT_MAX, 0)"
    by (simp add: ForEach_c_fresh CreateInterfaceCollection_def registry_at_def)
  then show ?thesis
    using run_wrap_requests
    by (simp add: CreateInterfaceCollection_def registry_at_def GetGenerationId_def
          HasInterface_T_def QueryInterface_T_def)
qed

text \<open>
  C6. Each of the three enumerations, called with a predicate that keeps a log of the
  elements it is called on and of its results, returns, and the log is a prefix of the
  sequence enumerated in which no element but the last has the result
  \<open>CancellationRequested\<close>: when the predicate cancels on the k-th element visited, the
  log has k elements and no later element is visited. When no call cancels, every
  element is visited. The sequence is the materialized set for the registry, the cache
  for the view, and the capability pointers of the cached objects for the enumeration
  over the capability. The registry has its locks free and the view its own; for the
  enumeration over the capability, which dereferences unchecked, the view is stale or
  its cached objects have the capability.
\<close>

theorem cancellation_stops_enumeration:
  fixes r :: "'o DObjectRegistry"
  assumes "locks_free r" and "\<not> m_objectsLock_c v"
    and "m_generationId_c v \<noteq> m_generationId r \<or> (\<forall>ob\<in>set (m_objects_c v). HasInterface_T qi ob T)"
  shows "(\<exists>r' s' log. ForEach (Some (observe fn)) (r, (s, [])) = Inr (r', (s', log)) \<and>
            map fst log = take (length log) (m_objects r') \<and> cancellation_is_last log \<and>
            enumeration_log (m_objects r') log) \<and>
         (\<exists>v' r' s' log. ForEach_c qi T (Some (observe fn)) (v, r, (s, [])) = Inr (v', r', (s', log)) \<and>
            map fst log = take (length log) (m_objects_c v') \<and> cancellation_is_last log \<and>
            enumeration_log (m_objects_c v') log) \<and>
         (\<exists>v' r' s' log. ForEach_cap qi T (Some (observe g)) (v, r, (t, [])) = Inr (v', r', (s', log)) \<and>
            map (\<lambda>e. Some (fst e)) log = take (length log) (map (\<lambda>ob. qi ob T) (m_objects_c v')) \<and>
            cancellation_is_last log \<and>
            enumeration_log (map (\<lambda>ob. qi ob T) (m_objects_c v')) (map (\<lambda>(p, res). (Some p, res)) log))"
proof -
  let ?has = "\<lambda>ob. HasInterface_T qi ob T"
  have one: "\<exists>r' s' log. ForEach (Some (observe fn)) (r, (s, [])) = Inr (r', (s', log)) \<and>
            map fst log = take (length log) (m_objects r') \<and> cancellation_is_last log \<and>
            enumeration_log (m_objects r') log"
  proof -
    from for_each_observe [of fn "(drained r)\<lparr>m_objectsLock := True\<rparr>" "m_objects (drained r)" s "[]"]
    obtain s' vis where "for_each (observe fn ((drained r)\<lparr>m_objectsLock := True\<rparr>)) (m_objects (drained r)) (s, [])
        = (s', vis)" and "enumeration_log (m_objects (drained r)) vis" by auto
    with ForEach_drained [OF assms(1), of "observe fn" "(s, [])"] show ?thesis
      by (auto simp: enumeration_log_def)
  qed
  have two: "\<exists>v' r' s' log. ForEach_c qi T (Some (observe fn)) (v, r, (s, [])) = Inr (v', r', (s', log)) \<and>
            map fst log = take (length log) (m_objects_c v') \<and> cancellation_is_last log \<and>
            enumeration_log (m_objects_c v') log"
  proof (cases "m_generationId_c v = m_generationId r")
    case True
    from for_each_observe [of fn r "m_objects_c v" s "[]"]
    obtain s' vis where "for_each (observe fn r) (m_objects_c v) (s, []) = (s', vis)"
      and "enumeration_log (m_objects_c v) vis" by auto
    with ForEach_c_fresh [OF assms(2) True, of qi T "observe fn" "(s, [])"] show ?thesis
      by (auto simp: enumeration_log_def)
  next
    case False
    from for_each_observe [of fn "drained r" "filter ?has (m_objects (drained r))" s "[]"]
    obtain s' vis where "for_each (observe fn (drained r)) (filter ?has (m_objects (drained r))) (s, []) = (s', vis)"
      and "enumeration_log (filter ?has (m_objects (drained r))) vis" by auto
    with ForEach_c_stale [OF assms(1,2) False, of qi T "observe fn" "(s, [])"] show ?thesis
      by (auto simp: enumeration_log_def)
  qed
  have three: "\<exists>v' r' s' log. ForEach_cap qi T (Some (observe g)) (v, r, (t, [])) = Inr (v', r', (s', log)) \<and>
            map (\<lambda>e. Some (fst e)) log = take (length log) (map (\<lambda>ob. qi ob T) (m_objects_c v')) \<and>
            cancellation_is_last log \<and>
            enumeration_log (map (\<lambda>ob. qi ob T) (m_objects_c v')) (map (\<lambda>(p, res). (Some p, res)) log)"
  proof (cases "m_generationId_c v = m_generationId r")
    case True
    with assms(3) have "\<forall>ob\<in>set (m_objects_c v). qi ob T \<noteq> None"
      by (simp add: HasInterface_T_def QueryInterface_T_def)
    from this for_each_deref_observe [where xs = "m_objects_c v" and qi = qi and T = T and g = g
        and r = r and s = t and ?log0.0 = "[]"]
    obtain s' vis where "for_each (deref_predicate qi T (observe g) r) (m_objects_c v) (Inr (t, [])) = Inr (s', vis)"
      and "enumeration_log (map (\<lambda>ob. qi ob T) (m_objects_c v)) (map (\<lambda>(p, res). (Some p, res)) vis)" by auto
    with ForEach_c_fresh [OF assms(2) True, of qi T "deref_predicate qi T (observe g)" "Inr (t, [])"]
    show ?thesis
      using enumeration_log_Some by (fastforce simp: ForEach_cap_def and_then_def)
  next
    case False
    have "\<forall>ob\<in>set (filter ?has (m_objects (drained r))). qi ob T \<noteq> None"
      by (simp add: HasInterface_T_def QueryInterface_T_def)
    from this for_each_deref_observe [where xs = "filter ?has (m_objects (drained r))" and qi = qi
        and T = T and g = g and r = "drained r" and s = t and ?log0.0 = "[]"]
    obtain s' vis where "for_each (deref_predicate qi T (observe g) (drained r))
         (filter ?has (m_objects (drained r))) (Inr (t, [])) = Inr (s', vis)"
      and "enumeration_log (map (\<lambda>ob. qi ob T) (filter ?has (m_objects (drained r))))
             (map (\<lambda>(p, res). (Some p, res)) vis)" by auto
    with ForEach_c_stale [OF assms(1,2) False, of qi T "deref_predicate qi T (observe g)" "Inr (t, [])"]
    show ?thesis
      using enumeration_log_Some by (fastforce simp: ForEach_cap_def and_then_def)
  qed
  from one two three show ?thesis by blast
qed


theorem cancellation_stops_enumeration_witness:
  "locks_free example_objects \<and> \<not> m_objectsLock_c example_view \<and>
   HasInterface_T example_QueryInterfaceByTypeId (DExampleClass 1) DBarInterface \<and>
   HasInterface_T example_QueryInterfaceByTypeId (DOtherExampleClass 2) DBarInterface \<and>
   HasInterface_T example_QueryInterfaceByTypeId (DOtherExampleClass 3) DBarInterface \<and>
   ForEach (Some (observe (stop_at (DOtherExampleClass 2)))) (example_objects, (0, [])) =
     Inr (example_objects,
          (2, [(DExampleClass 1, Ok), (DOtherExampleClass 2, CancellationRequested)])) \<and>
   ForEach_c example_QueryInterfaceByTypeId DBarInterface
       (Some (observe (stop_at (DOtherExampleClass 2)))) (example_view, example_objects, (0, [])) =
     Inr (example_view, example_objects,
          (2, [(DExampleClass 1, Ok), (DOtherExampleClass 2, CancellationRequested)])) \<and>
   ForEach_cap example_QueryInterfaceByTypeId DBarInterface
       (Some (observe (stop_at (DOtherExampleClass 2, DBarInterface))))
       (example_view, example_objects, (0, [])) =
     Inr (example_view, example_objects,
          (2, [((DExampleClass 1, DBarInterface), Ok),
               ((DOtherExampleClass 2, DBarInterface), CancellationRequested)]))"
  using cancellation_stops_enumeration [of example_objects example_view
      example_QueryInterfaceByTypeId DBarInterface "stop_at (DOtherExampleClass 2)" 0
      "stop_at (DOtherExampleClass 2, DBarInterface)" 0]
  by (simp add: example_objects_def example_view_def locks_free_def
        HasInterface_T_def QueryInterface_T_def ForEach_def ForEach_c_def ForEach_cap_def
        GetGenerationId_def deref_predicate_def observe_def stop_at_def
        lock_c_def unlock_c_def and_then_def lock_objects_def unlock_objects_def
        cancellation_is_last_def less_Suc_eq)

text \<open>
  C4. \<open>RequestRemoveObject\<close> with a predicate, on a registry whose locks are free, calls
  the predicate once, on the registry as it was given: no lock of the registry is held
  and the removal is not in the queue yet. The removal is queued after that, and only
  when the predicate did not cancel. When it cancelled, the registry is returned as it
  was given; an object that is in the materialized set or about to be added, with no
  removal of it pending, is then in the materialized set after the next drain, and an
  object with the capability is in the cache of every view enumerated after that drain
  that rebuilds then or held the object already.
\<close>

theorem veto_keeps_object:
  fixes r :: "'o DObjectRegistry"
  assumes "locks_free r" and "fn r ob s = (res, p, s')"
  shows "RequestRemoveObject (Some ob) (Some (observe_removal fn)) (r, (s, [])) =
           Inr (if res = CancellationRequested then r
                else r\<lparr>m_objectsToRemove := m_objectsToRemove r @ [p]\<rparr>, (s', [r])) \<and>
         (res = CancellationRequested \<longrightarrow>
          RequestRemoveObject (Some ob) (Some fn) (r, s) = Inr (r, s') \<and>
          ((ob \<in> set (m_objects r) \<or> ob \<in> set (m_objectsToAdd r)) \<and>
           Some ob \<notin> set (m_objectsToRemove r) \<longrightarrow>
             (\<exists>r' t'. ForEach (Some g) (r, s') = Inr (r', t') \<and> ob \<in> set (m_objects r') \<and>
                (HasInterface_T qi ob T \<and> \<not> m_objectsLock_c v \<and>
                 (m_generationId_c v \<noteq> m_generationId r' \<or> ob \<in> set (m_objects_c v)) \<longrightarrow>
                   (\<exists>v' r'' u'. ForEach_c qi T (Some h) (v, r', u) = Inr (v', r'', u') \<and>
                      ob \<in> set (m_objects_c v') \<and> r'' = r')))))"
proof -
  from assms(1) have nl: "\<not> m_objectsToRemoveLock r" by (simp add: locks_free_def)
  from assms(2) have o: "observe_removal fn r ob (s, []) = (res, p, (s', [r]))"
    by (simp add: observe_removal_def)
  have one: "RequestRemoveObject (Some ob) (Some (observe_removal fn)) (r, (s, [])) =
           Inr (if res = CancellationRequested then r
                else r\<lparr>m_objectsToRemove := m_objectsToRemove r @ [p]\<rparr>, (s', [r]))"
    using nl o RequestRemoveObject_Some_eq [of r "observe_removal fn" ob "(s, [])" res p "(s', [r])"]
    by simp
  have two: "RequestRemoveObject (Some ob) (Some fn) (r, s) = Inr (r, s')"
    if "res = CancellationRequested"
    using that nl assms(2) RequestRemoveObject_Some_eq [of r fn ob s res p s']
    by simp
  have three: "\<exists>r' t'. ForEach (Some g) (r, s') = Inr (r', t') \<and> ob \<in> set (m_objects r') \<and>
               (HasInterface_T qi ob T \<and> \<not> m_objectsLock_c v \<and>
                (m_generationId_c v \<noteq> m_generationId r' \<or> ob \<in> set (m_objects_c v)) \<longrightarrow>
                  (\<exists>v' r'' u'. ForEach_c qi T (Some h) (v, r', u) = Inr (v', r'', u') \<and>
                     ob \<in> set (m_objects_c v') \<and> r'' = r'))"
    if pres: "ob \<in> set (m_objects r) \<or> ob \<in> set (m_objectsToAdd r)"
      and np: "Some ob \<notin> set (m_objectsToRemove r)"
  proof -
    let ?r' = "drained r"
    have in': "ob \<in> set (m_objects ?r')" using pres np by (rule kept_by_drain)
    have lf': "locks_free ?r'" using assms(1) by (simp add: locks_free_drained)
    have idle: "drained ?r' = ?r'" by (simp add: drained_idle drained_queues)
    have view: "\<exists>v' r'' u'. ForEach_c qi T (Some h) (v, ?r', u) = Inr (v', r'', u') \<and>
                     ob \<in> set (m_objects_c v') \<and> r'' = ?r'"
      if has: "HasInterface_T qi ob T" and vl: "\<not> m_objectsLock_c v"
        and st: "m_generationId_c v \<noteq> m_generationId ?r' \<or> ob \<in> set (m_objects_c v)"
    proof (cases "m_generationId_c v = m_generationId ?r'")
      case True
      with st have "ob \<in> set (m_objects_c v)" by simp
      with ForEach_c_fresh [OF vl True, of qi T h u] show ?thesis by simp
    next
      case False
      from ForEach_c_stale [OF lf' vl False, of qi T h u] in' has show ?thesis
        by (simp add: idle)
    qed
    from ForEach_drained [OF assms(1), of g s'] in' view show ?thesis by simp
  qed
  from one two three show ?thesis by blast
qed

theorem veto_keeps_object_witness:
  "locks_free example_objects \<and>
   veto_always example_objects (DOtherExampleClass 2) 0 = (CancellationRequested, Some (DOtherExampleClass 2), 1) \<and>
   RequestRemoveObject (Some (DOtherExampleClass 2)) (Some (observe_removal veto_always))
     (example_objects, (0, [])) = Inr (example_objects, (1, [example_objects])) \<and>
   RequestRemoveObject (Some (DOtherExampleClass 2)) (Some veto_always) (example_objects, 0)
     = Inr (example_objects, 1) \<and>
   DOtherExampleClass 2 \<in> set (m_objects example_objects) \<and>
   Some (DOtherExampleClass 2) \<notin> set (m_objectsToRemove example_objects) \<and>
   ForEach (Some visit_all) (example_objects, 1) = Inr (example_objects, 4) \<and>
   HasInterface_T example_QueryInterfaceByTypeId (DOtherExampleClass 2) DFooInterface \<and>
   \<not> m_objectsLock_c (CreateInterfaceCollection :: example_object DInterfaceCollection) \<and>
   m_generationId_c (CreateInterfaceCollection :: example_object DInterfaceCollection)
     \<noteq> m_generationId example_objects \<and>
   ForEach_c example_QueryInterfaceByTypeId DFooInterface (Some visit_all)
     (CreateInterfaceCollection, example_objects, 0) =
     Inr (\<lparr>m_objects_c = [DOtherExampleClass 2, DOtherExampleClass 3], m_objectsLock_c = False,
           m_generationId_c = 1\<rparr>, example_objects, 2) \<and>
   DOtherExampleClass 2 \<in> set [DOtherExampleClass 2, DOtherExampleClass 3]"
  using veto_keeps_object [of example_objects veto_always "DOtherExampleClass 2" 0
      CancellationRequested "Some (DOtherExampleClass 2)" 1 visit_all example_QueryInterfaceByTypeId DFooInterface
      CreateInterfaceCollection visit_all 0]
  by (simp add: example_objects_def locks_free_def veto_always_def observe_removal_def
        RequestRemoveObject_def CreateInterfaceCollection_def UINT_MAX_def
        HasInterface_T_def QueryInterface_T_def ForEach_def ForEach_c_def collect_def
        GetGenerationId_def visit_all_def
        lock_c_def unlock_c_def and_then_def lock_objects_def unlock_objects_def)

text \<open>
  C1. Take a registry reached from a new one by any sequence of requests, and a view in
  step with it: a view whose \<open>ForEach\<close> rebuilds (its cached generation differs from the
  registry's), or a view rebuilt before whose cache is the filtered materialized set.
  \<open>ForEach\<close> on the view returns, on both paths; the cache it leaves is the materialized
  set of the registry it leaves, filtered by \<open>HasInterface\<close> for the capability of the
  view: every object of the set with the capability is in it, once, and no other object
  is. The cached generation is the registry's. When the requests ended with a drain
  (both queues are empty), the registry it leaves is the one it was given, and a view
  that does not rebuild is left as it was. The elements the caller's predicate is
  called on are a prefix of the cache, and the whole cache when the predicate never
  cancels. After any further requests on the registry with fewer than \<open>2 ^ 32\<close> calls
  of \<open>ForEach\<close>, drains that change nothing among them, the view is in step again with
  the registry reached, so that the same holds of every later enumeration.
\<close>

theorem view_correct:
  fixes r :: "'o DObjectRegistry"
  assumes "run qs (DObjectRegistry_new, s0) = Inr (r, s1)"
    and "\<not> m_objectsLock_c v"
    and "view_in_step qi T v r"
  shows "\<exists>v' r' s' log.
           ForEach_c qi T (Some (observe fn)) (v, r, (s, [])) = Inr (v', r', (s', log)) \<and>
           m_objects_c v' = filter (\<lambda>ob. HasInterface_T qi ob T) (m_objects r') \<and>
           set (m_objects_c v') = {ob \<in> set (m_objects r'). HasInterface_T qi ob T} \<and>
           distinct (m_objects_c v') \<and>
           m_generationId_c v' = m_generationId r' \<and>
           \<not> m_objectsLock_c v' \<and>
           (m_objectsToAdd r = [] \<and> m_objectsToRemove r = [] \<longrightarrow> r' = r) \<and>
           (m_generationId_c v = m_generationId r \<longrightarrow> v' = v \<and> r' = r) \<and>
           enumeration_log (m_objects_c v') log \<and>
           ((\<forall>e\<in>set log. snd e = Ok) \<longrightarrow> map fst log = m_objects_c v') \<and>
           (run qs' (r', s1) = Inr (r2, s2) \<and> enumerations qs' < 2 ^ 32 \<longrightarrow>
              view_in_step qi T v' r2 \<and>
              (\<exists>qs2. run qs2 (DObjectRegistry_new, s0) = Inr (r2, s2)))"
proof -
  let ?has = "\<lambda>ob. HasInterface_T qi ob T"
  from run_invariants [OF assms(1) locks_free_new]
  have lf: "locks_free r" and d: "distinct (m_objects r)"
    by (simp_all add: DObjectRegistry_new_def)
  have main: "\<exists>log s'.
      ForEach_c qi T (Some (observe fn)) (v, r, (s, [])) = Inr (v', r', (s', log)) \<and>
      enumeration_log (m_objects_c v') log \<and>
      ((\<forall>e\<in>set log. snd e = Ok) \<longrightarrow> map fst log = m_objects_c v')"
    if call: "ForEach_c qi T (Some (observe fn)) (v, r, (s, [])) =
                Inr (v', r', for_each (observe fn r') (m_objects_c v') (s, []))"
    for v' r'
  proof -
    from for_each_observe [of fn r' "m_objects_c v'" s "[]"]
    obtain s' log where fe: "for_each (observe fn r') (m_objects_c v') (s, []) = (s', log)"
      and el: "enumeration_log (m_objects_c v') log" by auto
    from el have "(\<forall>e\<in>set log. snd e = Ok) \<longrightarrow> map fst log = m_objects_c v'"
      using enumeration_log_all_Ok by blast
    with call fe el show ?thesis by auto
  qed
  have later: "view_in_step qi T v' r2 \<and> (\<exists>qs2. run qs2 (DObjectRegistry_new, s0) = Inr (r2, s2))"
    if "run qs' (r', s1) = Inr (r2, s2)" "enumerations qs' < 2 ^ 32"
      and "locks_free r'" "m_objects_c v' = filter ?has (m_objects r')"
      "m_generationId_c v' = m_generationId r'"
      and reach: "\<exists>qs1. run qs1 (DObjectRegistry_new, s0) = Inr (r', s1)"
    for v' r'
  proof -
    from reach obtain qs1 where "run qs1 (DObjectRegistry_new, s0) = Inr (r', s1)" by blast
    with that(1) have "run (qs1 @ qs') (DObjectRegistry_new, s0) = Inr (r2, s2)"
      by (simp add: run_append and_then_def)
    then have "\<exists>qs2. run qs2 (DObjectRegistry_new, s0) = Inr (r2, s2)" by blast
    with view_stays_in_step [OF that(1) that(3) that(2) that(4) that(5)] show ?thesis by simp
  qed
  show ?thesis
  proof (cases "m_generationId_c v = m_generationId r")
    case True
    with assms(3) have c: "m_objects_c v = filter ?has (m_objects r)"
      by (simp add: view_in_step_def)
    from main [of v r] ForEach_c_fresh [OF assms(2) True, of qi T "observe fn" "(s, [])"]
    obtain log s' where 1: "ForEach_c qi T (Some (observe fn)) (v, r, (s, [])) = Inr (v, r, (s', log))"
      and 2: "enumeration_log (m_objects_c v) log"
      and 3: "(\<forall>e\<in>set log. snd e = Ok) \<longrightarrow> map fst log = m_objects_c v" by blast
    have 4: "run qs' (r, s1) = Inr (r2, s2) \<and> enumerations qs' < 2 ^ 32 \<longrightarrow>
              view_in_step qi T v r2 \<and> (\<exists>qs2. run qs2 (DObjectRegistry_new, s0) = Inr (r2, s2))"
      using later [of r v] lf c True assms(1) by blast
    have 5: "set (m_objects_c v) = {ob \<in> set (m_objects r). ?has ob} \<and> distinct (m_objects_c v)"
      using c d by simp
    from 1 2 3 4 5 c True assms(2) show ?thesis
      by (intro exI [of _ v] exI [of _ r] exI [of _ s'] exI [of _ log]) simp
  next
    case False
    let ?r' = "drained r"
    let ?v' = "v\<lparr>m_objects_c := filter ?has (m_objects ?r'), m_generationId_c := m_generationId ?r'\<rparr>"
    from d have d': "distinct (m_objects ?r')" by (rule distinct_drained)
    from lf have lf': "locks_free ?r'" by (simp add: locks_free_drained)
    have c: "m_objects_c ?v' = filter ?has (m_objects ?r')" by simp
    have g: "m_generationId_c ?v' = m_generationId ?r'" by simp
    from main [of ?v' ?r'] ForEach_c_stale [OF lf assms(2) False, of qi T "observe fn" "(s, [])"]
    obtain log s' where 1: "ForEach_c qi T (Some (observe fn)) (v, r, (s, [])) = Inr (?v', ?r', (s', log))"
      and 2: "enumeration_log (m_objects_c ?v') log"
      and 3: "(\<forall>e\<in>set log. snd e = Ok) \<longrightarrow> map fst log = m_objects_c ?v'" by auto
    have reach: "\<exists>qs1. run qs1 (DObjectRegistry_new, s0) = Inr (?r', s1)"
      using run_then_drain [OF assms(1) lf] by blast
    have 4: "run qs' (?r', s1) = Inr (r2, s2) \<and> enumerations qs' < 2 ^ 32 \<longrightarrow>
              view_in_step qi T ?v' r2 \<and> (\<exists>qs2. run qs2 (DObjectRegistry_new, s0) = Inr (r2, s2))"
      using later [of ?r' ?v'] lf' c g reach by blast
    have 5: "set (m_objects_c ?v') = {ob \<in> set (m_objects ?r'). ?has ob} \<and> distinct (m_objects_c ?v')
        \<and> \<not> m_objectsLock_c ?v'"
      using d' assms(2) by simp
    have 6: "m_objectsToAdd r = [] \<and> m_objectsToRemove r = [] \<longrightarrow> ?r' = r"
      by (simp add: drained_idle)
    from 1 2 3 4 5 6 c g False show ?thesis
      by (intro exI [of _ ?v'] exI [of _ ?r'] exI [of _ s'] exI [of _ log]) simp
  qed
qed

theorem view_correct_witness:
  "run [AddRequest (Some (DExampleClass 1)), AddRequest (Some (DOtherExampleClass 2)),
        AddRequest (Some (DOtherExampleClass 3)), Enumerate (Some visit_all)]
     (DObjectRegistry_new, 0) = Inr (example_objects, 3) \<and>
   \<not> m_objectsLock_c (CreateInterfaceCollection :: example_object DInterfaceCollection) \<and>
   m_generationId_c (CreateInterfaceCollection :: example_object DInterfaceCollection)
     \<noteq> m_generationId example_objects \<and>
   ForEach_c example_QueryInterfaceByTypeId DFooInterface (Some (observe visit_all))
     (CreateInterfaceCollection, example_objects, (0, [])) =
     Inr (example_foo_view, example_objects,
          (2, [(DOtherExampleClass 2, Ok), (DOtherExampleClass 3, Ok)])) \<and>
   run [AddRequest (Some (DOtherExampleClass 2)), Enumerate (Some visit_all)] (example_objects, 3)
     = Inr (example_objects, 6) \<and>
   enumerations [AddRequest (Some (DOtherExampleClass 2)), Enumerate (Some (visit_all ::
       (example_object, nat) predicateFn))] < 2 ^ 32 \<and>
   \<not> m_objectsLock_c example_foo_view \<and>
   m_generationId_c example_foo_view = m_generationId example_objects \<and>
   m_objects_c example_foo_view =
     filter (\<lambda>ob. HasInterface_T example_QueryInterfaceByTypeId ob DFooInterface)
       (m_objects example_objects) \<and>
   ForEach_c example_QueryInterfaceByTypeId DFooInterface
       (Some (observe (stop_at (DOtherExampleClass 2))))
     (example_foo_view, example_objects, (0, [])) =
     Inr (example_foo_view, example_objects, (1, [(DOtherExampleClass 2, CancellationRequested)])) \<and>
   ForEach_c example_QueryInterfaceByTypeId DFooInterface (Some (observe visit_all))
     (example_foo_view, example_objects, (0, [])) =
     Inr (example_foo_view, example_objects,
          (2, [(DOtherExampleClass 2, Ok), (DOtherExampleClass 3, Ok)]))"
  using view_correct [where qs = "[AddRequest (Some (DExampleClass 1)), AddRequest (Some (DOtherExampleClass 2)),
        AddRequest (Some (DOtherExampleClass 3)), Enumerate (Some visit_all)]" and ?s0.0 = 0
      and r = example_objects and ?s1.0 = 3 and v = CreateInterfaceCollection
      and qi = example_QueryInterfaceByTypeId and T = DFooInterface and fn = visit_all and s = 0
      and qs' = "[AddRequest (Some (DOtherExampleClass 2)), Enumerate (Some visit_all)]"
      and ?r2.0 = example_objects and ?s2.0 = 6]
    view_correct [where qs = "[AddRequest (Some (DExampleClass 1)), AddRequest (Some (DOtherExampleClass 2)),
        AddRequest (Some (DOtherExampleClass 3)), Enumerate (Some visit_all)]" and ?s0.0 = 0
      and r = example_objects and ?s1.0 = 3 and v = example_foo_view
      and qi = example_QueryInterfaceByTypeId and T = DFooInterface and fn = visit_all and s = 0
      and qs' = "[AddRequest (Some (DOtherExampleClass 2)), Enumerate (Some visit_all)]"
      and ?r2.0 = example_objects and ?s2.0 = 6]
  by (simp add: example_objects_def example_foo_view_def DObjectRegistry_new_def
        CreateInterfaceCollection_def view_in_step_def
        UINT_MAX_def RequestAddObject_def
        HasInterface_T_def QueryInterface_T_def ForEach_def ForEach_c_def collect_def
        GetGenerationId_def visit_all_def stop_at_def observe_def drain_def Let_def
        lock_c_def unlock_c_def and_then_def lock_objects_def unlock_objects_def
        lock_objectsToAdd_def unlock_objectsToAdd_def
        lock_objectsToRemove_def unlock_objectsToRemove_def)

end
